theory Spec2Isabelle
  imports Main "HOL-Library.Multiset"
begin

section \<open>Values, grids and array access\<close>

text \<open>
  A grid is a JavaScript array of row arrays. A cell is a number or \<open>undefined\<close>
  (a hole, or what a read past the end of a row yields). Reading \<open>grid[r][c]\<close> first
  reads \<open>grid[r]\<close>: when that row does not exist the read of its property \<open>c\<close> throws
  a TypeError; when the row exists and the column does not, the read yields \<open>undefined\<close>.
  Numbers are integers here: the engine stores and compares only integers, and the
  indices it is called with are integers.
\<close>

datatype jsval = Undefined | Num int

datatype error = TypeError

type_synonym grid = "jsval list list"

definition DIGITS :: "int list" where
  "DIGITS = [1, 2, 3, 4, 5, 6, 7, 8, 9]"

definition createEmptyGrid :: grid where
  "createEmptyGrid = replicate 9 (replicate 9 (Num 0))"

text \<open>
  \<open>grid.map((r) => r.slice())\<close>. On grid values a copy is the grid again; which arrays
  are new is the subject of the section on the store.
\<close>

definition cloneGrid :: "grid \<Rightarrow> grid" where
  "cloneGrid g = map (\<lambda>r. r) g"

definition row_at :: "grid \<Rightarrow> int \<Rightarrow> jsval list option" where
  "row_at g r = (if 0 \<le> r \<and> r < int (length g) then Some (g ! nat r) else None)"

definition elem_at :: "jsval list \<Rightarrow> int \<Rightarrow> jsval" where
  "elem_at xs c = (if 0 \<le> c \<and> c < int (length xs) then xs ! nat c else Undefined)"

definition cell :: "grid \<Rightarrow> int \<Rightarrow> int \<Rightarrow> error + jsval" where
  "cell g r c = (case row_at g r of None \<Rightarrow> Inl TypeError | Some xs \<Rightarrow> Inr (elem_at xs c))"

text \<open>\<open>grid[r][c] === val\<close>: strict equality of a cell and a value.\<close>

definition cell_is :: "grid \<Rightarrow> int \<Rightarrow> int \<Rightarrow> jsval \<Rightarrow> error + bool" where
  "cell_is g r c val = (case cell g r c of Inl e \<Rightarrow> Inl e | Inr x \<Rightarrow> Inr (x = val))"

text \<open>\<open>a && b\<close>: the right operand is evaluated (and may throw) only when the left is true.\<close>

definition and_then :: "bool \<Rightarrow> error + bool \<Rightarrow> error + bool" where
  "and_then a b = (if a then b else Inr False)"

section \<open>The constraint checker\<close>

text \<open>
  The first loop of \<open>isValidPlacement\<close>, over \<open>i = 0..8\<close>: the row test, then the column
  test, each returning false at once. \<open>Inr True\<close> means the loop ran to its end.
\<close>

fun isValidPlacement_lines :: "grid \<Rightarrow> int \<Rightarrow> int \<Rightarrow> jsval \<Rightarrow> int list \<Rightarrow> error + bool" where
  "isValidPlacement_lines g row col val [] = Inr True"
| "isValidPlacement_lines g row col val (i # rest) =
     (case and_then (i \<noteq> col) (cell_is g row i val) of
        Inl e \<Rightarrow> Inl e
      | Inr True \<Rightarrow> Inr False
      | Inr False \<Rightarrow>
          (case and_then (i \<noteq> row) (cell_is g i col val) of
             Inl e \<Rightarrow> Inl e
           | Inr True \<Rightarrow> Inr False
           | Inr False \<Rightarrow> isValidPlacement_lines g row col val rest))"

text \<open>The nested loops over the 3x3 box, as one loop over the cells in the order visited.\<close>

fun isValidPlacement_box :: "grid \<Rightarrow> int \<Rightarrow> int \<Rightarrow> jsval \<Rightarrow> (int \<times> int) list \<Rightarrow> error + bool" where
  "isValidPlacement_box g row col val [] = Inr True"
| "isValidPlacement_box g row col val ((r, c) # rest) =
     (case and_then (r \<noteq> row \<or> c \<noteq> col) (cell_is g r c val) of
        Inl e \<Rightarrow> Inl e
      | Inr True \<Rightarrow> Inr False
      | Inr False \<Rightarrow> isValidPlacement_box g row col val rest)"

definition isValidPlacement :: "grid \<Rightarrow> int \<Rightarrow> int \<Rightarrow> jsval \<Rightarrow> error + bool" where
  "isValidPlacement g row col val =
     (case isValidPlacement_lines g row col val (map int [0..<9]) of
        Inl e \<Rightarrow> Inl e
      | Inr False \<Rightarrow> Inr False
      | Inr True \<Rightarrow>
          (let br = (row div 3) * 3; bc = (col div 3) * 3
           in isValidPlacement_box g row col val
                (List.product [br, br + 1, br + 2] [bc, bc + 1, bc + 2])))"

section \<open>Well-formed grids and the placement rule\<close>

definition grid9x9 :: "grid \<Rightarrow> bool" where
  "grid9x9 g \<longleftrightarrow> length g = 9 \<and> (\<forall>row\<in>set g. length row = 9)"

text \<open>
  The rule as the specification words it: cell \<open>(r, c)\<close> is another cell in the row, the
  column or the 3x3 box of \<open>(row, col)\<close>.
\<close>

definition peer :: "nat \<Rightarrow> nat \<Rightarrow> nat \<Rightarrow> nat \<Rightarrow> bool" where
  "peer row col r c \<longleftrightarrow>
     (r \<noteq> row \<or> c \<noteq> col) \<and>
     (r = row \<or> c = col \<or> (r div 3 = row div 3 \<and> c div 3 = col div 3))"

definition no_peer_holds :: "grid \<Rightarrow> nat \<Rightarrow> nat \<Rightarrow> jsval \<Rightarrow> bool" where
  "no_peer_holds g row col val \<longleftrightarrow>
     (\<forall>r\<in>{0..<9}. \<forall>c\<in>{0..<9}. peer row col r c \<longrightarrow> g ! r ! c \<noteq> val)"

text \<open>The cells of the 3x3 box of \<open>(row, col)\<close>, in the order the nested loops visit them.\<close>

definition box_cells :: "nat \<Rightarrow> nat \<Rightarrow> (nat \<times> nat) list" where
  "box_cells row col = List.product [row div 3 * 3, row div 3 * 3 + 1, row div 3 * 3 + 2]
                   [col div 3 * 3, col div 3 * 3 + 1, col div 3 * 3 + 2]"

section \<open>Writing a cell and finding the first empty cell\<close>

text \<open>
  \<open>g[r][c] = v\<close>: throws a TypeError when row \<open>r\<close> does not exist; a write past the
  end of an existing row extends the row, leaving holes that read as \<open>undefined\<close>.
\<close>

definition array_set :: "jsval list \<Rightarrow> nat \<Rightarrow> jsval \<Rightarrow> jsval list" where
  "array_set xs c v =
     (if c < length xs then xs[c := v]
      else xs @ replicate (c - length xs) Undefined @ [v])"

definition set_cell :: "grid \<Rightarrow> nat \<Rightarrow> nat \<Rightarrow> jsval \<Rightarrow> error + grid" where
  "set_cell g r c v =
     (if r < length g then Inr (g[r := array_set (g ! r) c v]) else Inl TypeError)"

text \<open>The row-major scan of \<open>findEmpty\<close>, as one loop over the cells in the order visited.\<close>

fun findEmpty_scan :: "grid \<Rightarrow> (nat \<times> nat) list \<Rightarrow> error + (nat \<times> nat) option" where
  "findEmpty_scan g [] = Inr None"
| "findEmpty_scan g ((r, c) # rest) =
     (case cell_is g (int r) (int c) (Num 0) of
        Inl e \<Rightarrow> Inl e
      | Inr True \<Rightarrow> Inr (Some (r, c))
      | Inr False \<Rightarrow> findEmpty_scan g rest)"

definition findEmpty :: "grid \<Rightarrow> error + (nat \<times> nat) option" where
  "findEmpty g = findEmpty_scan g (List.product [0..<9] [0..<9])"

section \<open>The backtracking solver\<close>

text \<open>
  \<open>backtrack\<close> mutates the grid \<open>g\<close> of its enclosing \<open>solveSudoku\<close>; here it takes the
  grid and returns it with its verdict. The first argument bounds how deep recursive calls
  may nest below this one; \<open>None\<close> means that bound was reached. \<open>backtrack_loop\<close> is the
  \<open>for (const val of DIGITS)\<close> loop over the values still to try at cell \<open>(r, c)\<close>.
\<close>

fun backtrack :: "nat \<Rightarrow> grid \<Rightarrow> (error + bool \<times> grid) option"
  and backtrack_loop :: "nat \<Rightarrow> nat \<Rightarrow> nat \<Rightarrow> int list \<Rightarrow> grid \<Rightarrow> (error + bool \<times> grid) option"
where
  "backtrack n g =
     (case findEmpty g of
        Inl e \<Rightarrow> Some (Inl e)
      | Inr None \<Rightarrow> Some (Inr (True, g))
      | Inr (Some (r, c)) \<Rightarrow> backtrack_loop n r c DIGITS g)"
| "backtrack_loop n r c [] g = Some (Inr (False, g))"
| "backtrack_loop n r c (v # vs) g =
     (case set_cell g r c (Num v) of
        Inl e \<Rightarrow> Some (Inl e)
      | Inr g1 \<Rightarrow>
          (case isValidPlacement g1 (int r) (int c) (Num v) of
             Inl e \<Rightarrow> Some (Inl e)
           | Inr False \<Rightarrow>
               (case set_cell g1 r c (Num 0) of
                  Inl e \<Rightarrow> Some (Inl e)
                | Inr g2 \<Rightarrow> backtrack_loop n r c vs g2)
           | Inr True \<Rightarrow>
               (case n of
                  0 \<Rightarrow> None
                | Suc m \<Rightarrow>
                    (case backtrack m g1 of
                       None \<Rightarrow> None
                     | Some (Inl e) \<Rightarrow> Some (Inl e)
                     | Some (Inr (True, g')) \<Rightarrow> Some (Inr (True, g'))
                     | Some (Inr (False, g')) \<Rightarrow>
                         (case set_cell g' r c (Num 0) of
                            Inl e \<Rightarrow> Some (Inl e)
                          | Inr g2 \<Rightarrow> backtrack_loop n r c vs g2)))))"

record solve_result =
  solved :: bool
  grid :: grid

definition solveSudoku :: "nat \<Rightarrow> grid \<Rightarrow> (error + solve_result) option" where
  "solveSudoku n caller_grid =
     (case backtrack n (cloneGrid caller_grid) of
        None \<Rightarrow> None
      | Some (Inl e) \<Rightarrow> Some (Inl e)
      | Some (Inr (ok, g)) \<Rightarrow> Some (Inr \<lparr>solved = ok, grid = g\<rparr>))"

section \<open>The puzzle generator\<close>

text \<open>
  \<open>Math.random\<close> is a source of draws outside the program: a tape of naturals, read from
  the front. \<open>Math.floor(Math.random() * m)\<close> is an integer in \<open>0..m-1\<close>; which one is up
  to the tape.
\<close>

type_synonym rng = "nat \<Rightarrow> nat"

definition random_below :: "nat \<Rightarrow> rng \<Rightarrow> nat \<times> rng" where
  "random_below m rnd = (rnd 0 mod m, (\<lambda>k. rnd (Suc k)))"

text \<open>
  The Fisher-Yates loop \<open>for (i = arr.length - 1; i > 0; i--)\<close>, from index \<open>i\<close> down;
  the destructuring swap reads both elements before it writes either.
\<close>

fun shuffle_from :: "nat \<Rightarrow> 'a list \<Rightarrow> rng \<Rightarrow> 'a list \<times> rng" where
  "shuffle_from 0 arr rnd = (arr, rnd)"
| "shuffle_from (Suc k) arr rnd =
     (case random_below (Suc k + 1) rnd of
        (j, rnd') \<Rightarrow> shuffle_from k (arr[Suc k := arr ! j, j := arr ! Suc k]) rnd')"

definition shuffle :: "'a list \<Rightarrow> rng \<Rightarrow> 'a list \<times> rng" where
  "shuffle arr rnd = shuffle_from (length arr - 1) arr rnd"

definition shuffledDigits :: "rng \<Rightarrow> int list \<times> rng" where
  "shuffledDigits rnd = shuffle DIGITS rnd"

text \<open>
  \<open>fill\<close> is \<open>backtrack\<close> on the generator's own grid \<open>solution\<close>, with the values to try
  shuffled afresh in every call.
\<close>

fun fill :: "nat \<Rightarrow> grid \<Rightarrow> rng \<Rightarrow> (error + bool \<times> grid \<times> rng) option"
  and fill_loop :: "nat \<Rightarrow> nat \<Rightarrow> nat \<Rightarrow> int list \<Rightarrow> grid \<Rightarrow> rng \<Rightarrow> (error + bool \<times> grid \<times> rng) option"
where
  "fill n g rnd =
     (case findEmpty g of
        Inl e \<Rightarrow> Some (Inl e)
      | Inr None \<Rightarrow> Some (Inr (True, g, rnd))
      | Inr (Some (r, c)) \<Rightarrow>
          (case shuffledDigits rnd of
             (candidates, rnd') \<Rightarrow> fill_loop n r c candidates g rnd'))"
| "fill_loop n r c [] g rnd = Some (Inr (False, g, rnd))"
| "fill_loop n r c (v # vs) g rnd =
     (case set_cell g r c (Num v) of
        Inl e \<Rightarrow> Some (Inl e)
      | Inr g1 \<Rightarrow>
          (case isValidPlacement g1 (int r) (int c) (Num v) of
             Inl e \<Rightarrow> Some (Inl e)
           | Inr False \<Rightarrow>
               (case set_cell g1 r c (Num 0) of
                  Inl e \<Rightarrow> Some (Inl e)
                | Inr g2 \<Rightarrow> fill_loop n r c vs g2 rnd)
           | Inr True \<Rightarrow>
               (case n of
                  0 \<Rightarrow> None
                | Suc m \<Rightarrow>
                    (case fill m g1 rnd of
                       None \<Rightarrow> None
                     | Some (Inl e) \<Rightarrow> Some (Inl e)
                     | Some (Inr (True, g', rnd')) \<Rightarrow> Some (Inr (True, g', rnd'))
                     | Some (Inr (False, g', rnd')) \<Rightarrow>
                         (case set_cell g' r c (Num 0) of
                            Inl e \<Rightarrow> Some (Inl e)
                          | Inr g2 \<Rightarrow> fill_loop n r c vs g2 rnd')))))"

text \<open>
  The removal loop \<open>for (k = 0; k < toRemove; k++)\<close>. \<open>toRemove\<close> is at most 64, so
  \<open>indices[k]\<close> is always one of the 81 shuffled cell numbers.
\<close>

fun remove_loop :: "nat list \<Rightarrow> nat list \<Rightarrow> grid \<Rightarrow> error + grid" where
  "remove_loop indices [] puzzle = Inr puzzle"
| "remove_loop indices (k # ks) puzzle =
     (let idx = indices ! k; r = idx div 9; c = idx mod 9
      in case set_cell puzzle r c (Num 0) of
           Inl e \<Rightarrow> Inl e
         | Inr p \<Rightarrow> remove_loop indices ks p)"

record generate_result =
  puzzle :: grid
  solution :: grid

text \<open>The option \<open>givens\<close> defaults to 32 when the caller leaves it out.\<close>

definition generateSudoku :: "nat \<Rightarrow> int option \<Rightarrow> rng \<Rightarrow> (error + generate_result) option" where
  "generateSudoku n givens_opt rnd =
     (let givens = (case givens_opt of None \<Rightarrow> 32 | Some k \<Rightarrow> k)
      in case fill n createEmptyGrid rnd of
           None \<Rightarrow> None
         | Some (Inl e) \<Rightarrow> Some (Inl e)
         | Some (Inr (ok, sol, rnd1)) \<Rightarrow>
             (case shuffle [0..<81] rnd1 of
                (indices, rnd2) \<Rightarrow>
                  (let keep = max 17 (min 81 givens);
                       toRemove = 81 - keep
                   in case remove_loop indices [0..<nat toRemove] (cloneGrid sol) of
                        Inl e \<Rightarrow> Some (Inl e)
                      | Inr p \<Rightarrow> Some (Inr \<lparr>puzzle = p, solution = sol\<rparr>))))"

section \<open>The conflict scanner\<close>

fun gridHasConflicts_scan :: "grid \<Rightarrow> (nat \<times> nat) list \<Rightarrow> error + bool" where
  "gridHasConflicts_scan g [] = Inr False"
| "gridHasConflicts_scan g ((r, c) # rest) =
     (case cell g (int r) (int c) of
        Inl e \<Rightarrow> Inl e
      | Inr val \<Rightarrow>
          if val = Num 0 then gridHasConflicts_scan g rest
          else
            (case set_cell (cloneGrid g) r c (Num 0) of
               Inl e \<Rightarrow> Inl e
             | Inr copy \<Rightarrow>
                 (case isValidPlacement copy (int r) (int c) val of
                    Inl e \<Rightarrow> Inl e
                  | Inr False \<Rightarrow> Inr True
                  | Inr True \<Rightarrow> gridHasConflicts_scan g rest)))"

definition gridHasConflicts :: "grid \<Rightarrow> error + bool" where
  "gridHasConflicts g = gridHasConflicts_scan g (List.product [0..<9] [0..<9])"

section \<open>Notions used to state the properties\<close>

text \<open>The cell write on a grid whose row \<open>r\<close> and column \<open>c\<close> exist.\<close>

definition put :: "grid \<Rightarrow> nat \<Rightarrow> nat \<Rightarrow> jsval \<Rightarrow> grid" where
  "put g r c v = g[r := (g ! r)[c := v]]"

definition empty_cells :: "grid \<Rightarrow> (nat \<times> nat) set" where
  "empty_cells g = {(r, c) \<in> {0..<9} \<times> {0..<9}. g ! r ! c = Num 0}"

definition filled_cells :: "grid \<Rightarrow> (nat \<times> nat) set" where
  "filled_cells g = {(r, c) \<in> {0..<9} \<times> {0..<9}. g ! r ! c \<noteq> Num 0}"

text \<open>
  \<open>g'\<close> is a completion of \<open>g\<close>: every empty cell of \<open>g\<close> holds one of the values 1..9 in
  \<open>g'\<close>, every other cell is as in \<open>g\<close>.
\<close>

definition completion_of :: "grid \<Rightarrow> grid \<Rightarrow> bool" where
  "completion_of g g' \<longleftrightarrow>
     grid9x9 g' \<and>
     (\<forall>(r, c) \<in> {0..<9} \<times> {0..<9}.
        if g ! r ! c = Num 0 then g' ! r ! c \<in> Num ` set DIGITS else g' ! r ! c = g ! r ! c)"

text \<open>Cell \<open>(r, c)\<close> of \<open>g\<close> passes the placement check for the value it holds.\<close>

definition cell_passes :: "grid \<Rightarrow> nat \<times> nat \<Rightarrow> bool" where
  "cell_passes g = (\<lambda>(r, c). isValidPlacement g (int r) (int c) (g ! r ! c) = Inr True)"

text \<open>
  \<open>g'\<close> is a completion of \<open>g\<close> in which every cell that was empty in \<open>g\<close> passes the
  placement check.
\<close>

definition completes :: "grid \<Rightarrow> grid \<Rightarrow> bool" where
  "completes g g' \<longleftrightarrow> completion_of g g' \<and> (\<forall>p \<in> empty_cells g. cell_passes g' p)"

text \<open>
  What a search from \<open>g\<close> may answer: true with a grid that completes \<open>g\<close>, or false with
  \<open>g\<close> itself.
\<close>

definition search_ok :: "grid \<Rightarrow> (error + bool \<times> grid) option \<Rightarrow> bool" where
  "search_ok g res \<longleftrightarrow>
     (\<exists>b g'. res = Some (Inr (b, g')) \<and> (if b then completes g g' else g' = g))"

text \<open>
  A valid completion in the words of the specification: every cell of the completed grid
  passes the placement check.
\<close>

definition valid_completion :: "grid \<Rightarrow> grid \<Rightarrow> bool" where
  "valid_completion g g' \<longleftrightarrow>
     completion_of g g' \<and> (\<forall>p \<in> {0..<9} \<times> {0..<9}. cell_passes g' p)"

definition has_valid_completion :: "grid \<Rightarrow> bool" where
  "has_valid_completion g \<longleftrightarrow> (\<exists>g'. valid_completion g g')"

text \<open>No filled cell of \<open>g\<close> shares its value with another cell of its row, column or box.\<close>

definition conflict_free :: "grid \<Rightarrow> bool" where
  "conflict_free g \<longleftrightarrow> (\<forall>(r, c) \<in> filled_cells g. no_peer_holds g r c (g ! r ! c))"

text \<open>
  What \<open>fill\<close> may answer from \<open>g\<close>: true with a grid that completes \<open>g\<close>, or false with
  \<open>g\<close> itself when nothing completes \<open>g\<close>.
\<close>

definition fill_ok :: "grid \<Rightarrow> (error + bool \<times> grid \<times> rng) option \<Rightarrow> bool" where
  "fill_ok g res \<longleftrightarrow>
     (\<exists>b g' rnd'. res = Some (Inr (b, g', rnd')) \<and>
        (if b then completes g g' else g' = g \<and> \<not> (\<exists>s. completes g s)))"

text \<open>The same for the loop at cell \<open>(r, c)\<close> over the values \<open>vs\<close>.\<close>

definition fill_loop_ok :: "grid \<Rightarrow> nat \<Rightarrow> nat \<Rightarrow> int list \<Rightarrow> (error + bool \<times> grid \<times> rng) option \<Rightarrow> bool" where
  "fill_loop_ok g r c vs res \<longleftrightarrow>
     (\<exists>b g' rnd'. res = Some (Inr (b, g', rnd')) \<and>
        (if b then completes g g'
         else g' = g \<and> \<not> (\<exists>s. completes g s \<and> s ! r ! c \<in> Num ` set vs)))"

text \<open>Grid \<open>g\<close> with the cells in \<open>Z\<close> set to 0.\<close>

definition zeroed :: "grid \<Rightarrow> (nat \<times> nat) set \<Rightarrow> grid" where
  "zeroed g Z = map (\<lambda>r. map (\<lambda>c. if (r, c) \<in> Z then Num 0 else g ! r ! c) [0..<9]) [0..<9]"

section \<open>Example grids\<close>

definition grid_of :: "int list list \<Rightarrow> grid" where
  "grid_of rows = map (map Num) rows"

text \<open>A solved grid.\<close>

definition example_solution :: grid where
  "example_solution = grid_of
     ([5, 3, 4, 6, 7, 8, 9, 1, 2] #
      [6, 7, 2, 1, 9, 5, 3, 4, 8] #
      [1, 9, 8, 3, 4, 2, 5, 6, 7] #
      [8, 5, 9, 7, 6, 1, 4, 2, 3] #
      [4, 2, 6, 8, 5, 3, 7, 9, 1] #
      [7, 1, 3, 9, 2, 4, 8, 5, 6] #
      [9, 6, 1, 5, 3, 7, 2, 8, 4] #
      [2, 8, 7, 4, 1, 9, 6, 3, 5] #
      [3, 4, 5, 2, 8, 6, 1, 7, 9] # [])"

text \<open>The solved grid with its last cell cleared.\<close>

definition example_puzzle :: grid where
  "example_puzzle = grid_of
     ([5, 3, 4, 6, 7, 8, 9, 1, 2] #
      [6, 7, 2, 1, 9, 5, 3, 4, 8] #
      [1, 9, 8, 3, 4, 2, 5, 6, 7] #
      [8, 5, 9, 7, 6, 1, 4, 2, 3] #
      [4, 2, 6, 8, 5, 3, 7, 9, 1] #
      [7, 1, 3, 9, 2, 4, 8, 5, 6] #
      [9, 6, 1, 5, 3, 7, 2, 8, 4] #
      [2, 8, 7, 4, 1, 9, 6, 3, 5] #
      [3, 4, 5, 2, 8, 6, 1, 7, 0] # [])"

text \<open>The same, with the first cell changed to 3: row 0 now holds 3 twice.\<close>

definition example_dup_row :: grid where
  "example_dup_row = grid_of
     ([3, 3, 4, 6, 7, 8, 9, 1, 2] #
      [6, 7, 2, 1, 9, 5, 3, 4, 8] #
      [1, 9, 8, 3, 4, 2, 5, 6, 7] #
      [8, 5, 9, 7, 6, 1, 4, 2, 3] #
      [4, 2, 6, 8, 5, 3, 7, 9, 1] #
      [7, 1, 3, 9, 2, 4, 8, 5, 6] #
      [9, 6, 1, 5, 3, 7, 2, 8, 4] #
      [2, 8, 7, 4, 1, 9, 6, 3, 5] #
      [3, 4, 5, 2, 8, 6, 1, 7, 0] # [])"

text \<open>
  A grid without conflicts and without a solution: the last cell of row 0 sees 1..8 in its
  row and 9 in its column.
\<close>

definition example_unsolvable :: grid where
  "example_unsolvable = grid_of
     ([1, 2, 3, 4, 5, 6, 7, 8, 0] #
      [0, 0, 0, 0, 0, 0, 0, 0, 9] #
      [0, 0, 0, 0, 0, 0, 0, 0, 0] #
      [0, 0, 0, 0, 0, 0, 0, 0, 0] #
      [0, 0, 0, 0, 0, 0, 0, 0, 0] #
      [0, 0, 0, 0, 0, 0, 0, 0, 0] #
      [0, 0, 0, 0, 0, 0, 0, 0, 0] #
      [0, 0, 0, 0, 0, 0, 0, 0, 0] #
      [0, 0, 0, 0, 0, 0, 0, 0, 0] # [])"

section \<open>The solver on a store of shared arrays\<close>

text \<open>
  To say what the solver does to the caller's grid, arrays are objects in a store and a
  grid is a reference: an array object of references to row objects. \<open>next_addr\<close> is the
  next unused address; a new array is allocated there.
\<close>

type_synonym addr = nat

datatype obj = RowObj "jsval list" | GridObj "addr list"

record store =
  objs :: "addr \<Rightarrow> obj option"
  next_addr :: addr

definition alloc :: "obj \<Rightarrow> store \<Rightarrow> addr \<times> store" where
  "alloc ob st =
     (next_addr st, st\<lparr>objs := (objs st)(next_addr st \<mapsto> ob), next_addr := Suc (next_addr st)\<rparr>)"

definition read_row :: "store \<Rightarrow> addr \<Rightarrow> jsval list option" where
  "read_row st r = (case objs st r of Some (RowObj xs) \<Rightarrow> Some xs | _ \<Rightarrow> None)"

text \<open>The grid value that the reference \<open>a\<close> denotes in the store, when \<open>a\<close> is an array of rows.\<close>

definition read_grid :: "store \<Rightarrow> addr \<Rightarrow> grid option" where
  "read_grid st a =
     (case objs st a of Some (GridObj rs) \<Rightarrow> those (map (read_row st) rs) | _ \<Rightarrow> None)"

text \<open>\<open>grid.map((r) => r.slice())\<close>: a new row object for every row, then a new array of them.\<close>

fun clone_rows :: "store \<Rightarrow> addr list \<Rightarrow> error + addr list \<times> store" where
  "clone_rows st [] = Inr ([], st)"
| "clone_rows st (r # rs) =
     (case read_row st r of
        None \<Rightarrow> Inl TypeError
      | Some xs \<Rightarrow>
          (case alloc (RowObj xs) st of
             (r', st1) \<Rightarrow>
               (case clone_rows st1 rs of
                  Inl e \<Rightarrow> Inl e
                | Inr (rs', st2) \<Rightarrow> Inr (r' # rs', st2))))"

definition cloneGrid_ref :: "store \<Rightarrow> addr \<Rightarrow> error + addr \<times> store" where
  "cloneGrid_ref st a =
     (case objs st a of
        Some (GridObj rs) \<Rightarrow>
          (case clone_rows st rs of
             Inl e \<Rightarrow> Inl e
           | Inr (rs', st1) \<Rightarrow> Inr (alloc (GridObj rs') st1))
      | _ \<Rightarrow> Inl TypeError)"

text \<open>\<open>g[r][c] = v\<close> through the reference \<open>a\<close>: the row object \<open>g[r]\<close> is updated in place.\<close>

definition set_cell_ref :: "store \<Rightarrow> addr \<Rightarrow> nat \<Rightarrow> nat \<Rightarrow> jsval \<Rightarrow> error + store" where
  "set_cell_ref st a r c v =
     (case objs st a of
        Some (GridObj rs) \<Rightarrow>
          if r < length rs then
            (case read_row st (rs ! r) of
               None \<Rightarrow> Inl TypeError
             | Some xs \<Rightarrow> Inr (st\<lparr>objs := (objs st)(rs ! r \<mapsto> RowObj (array_set xs c v))\<rparr>))
          else Inl TypeError
      | _ \<Rightarrow> Inl TypeError)"

text \<open>
  The two functions that only read the grid, through the reference. A reference that does
  not denote an array of row arrays makes the first read of a cell throw.
\<close>

definition findEmpty_ref :: "store \<Rightarrow> addr \<Rightarrow> error + (nat \<times> nat) option" where
  "findEmpty_ref st a = (case read_grid st a of None \<Rightarrow> Inl TypeError | Some g \<Rightarrow> findEmpty g)"

definition isValidPlacement_ref :: "store \<Rightarrow> addr \<Rightarrow> int \<Rightarrow> int \<Rightarrow> jsval \<Rightarrow> error + bool" where
  "isValidPlacement_ref st a row col val =
     (case read_grid st a of None \<Rightarrow> Inl TypeError | Some g \<Rightarrow> isValidPlacement g row col val)"

fun backtrack_ref :: "nat \<Rightarrow> addr \<Rightarrow> store \<Rightarrow> (error + bool \<times> store) option"
  and backtrack_loop_ref :: "nat \<Rightarrow> addr \<Rightarrow> nat \<Rightarrow> nat \<Rightarrow> int list \<Rightarrow> store \<Rightarrow> (error + bool \<times> store) option"
where
  "backtrack_ref n a st =
     (case findEmpty_ref st a of
        Inl e \<Rightarrow> Some (Inl e)
      | Inr None \<Rightarrow> Some (Inr (True, st))
      | Inr (Some (r, c)) \<Rightarrow> backtrack_loop_ref n a r c DIGITS st)"
| "backtrack_loop_ref n a r c [] st = Some (Inr (False, st))"
| "backtrack_loop_ref n a r c (v # vs) st =
     (case set_cell_ref st a r c (Num v) of
        Inl e \<Rightarrow> Some (Inl e)
      | Inr st1 \<Rightarrow>
          (case isValidPlacement_ref st1 a (int r) (int c) (Num v) of
             Inl e \<Rightarrow> Some (Inl e)
           | Inr False \<Rightarrow>
               (case set_cell_ref st1 a r c (Num 0) of
                  Inl e \<Rightarrow> Some (Inl e)
                | Inr st2 \<Rightarrow> backtrack_loop_ref n a r c vs st2)
           | Inr True \<Rightarrow>
               (case n of
                  0 \<Rightarrow> None
                | Suc m \<Rightarrow>
                    (case backtrack_ref m a st1 of
                       None \<Rightarrow> None
                     | Some (Inl e) \<Rightarrow> Some (Inl e)
                     | Some (Inr (True, st')) \<Rightarrow> Some (Inr (True, st'))
                     | Some (Inr (False, st')) \<Rightarrow>
                         (case set_cell_ref st' a r c (Num 0) of
                            Inl e \<Rightarrow> Some (Inl e)
                          | Inr st2 \<Rightarrow> backtrack_loop_ref n a r c vs st2)))))"

record solve_result_ref =
  solved_ref :: bool
  grid_ref :: addr

definition solveSudoku_ref :: "nat \<Rightarrow> addr \<Rightarrow> store \<Rightarrow> (error + solve_result_ref \<times> store) option" where
  "solveSudoku_ref n caller_grid st =
     (case cloneGrid_ref st caller_grid of
        Inl e \<Rightarrow> Some (Inl e)
      | Inr (g, st1) \<Rightarrow>
          (case backtrack_ref n g st1 of
             None \<Rightarrow> None
           | Some (Inl e) \<Rightarrow> Some (Inl e)
           | Some (Inr (ok, st2)) \<Rightarrow> Some (Inr (\<lparr>solved_ref = ok, grid_ref = g\<rparr>, st2))))"

text \<open>Every object of the store lies below \<open>next_addr\<close>.\<close>

definition store_ok :: "store \<Rightarrow> bool" where
  "store_ok st \<longleftrightarrow> (\<forall>x. objs st x \<noteq> None \<longrightarrow> x < next_addr st)"

text \<open>
  The reference \<open>a\<close> denotes the grid \<open>g\<close> through the distinct row objects \<open>rs\<close>, as the
  solver's private copy does.
\<close>

definition owns :: "store \<Rightarrow> addr \<Rightarrow> addr list \<Rightarrow> grid \<Rightarrow> bool" where
  "owns st a rs g \<longleftrightarrow>
     objs st a = Some (GridObj rs) \<and> distinct rs \<and> map (read_row st) rs = map Some g"

text \<open>Only the objects \<open>rs\<close> may differ between the two stores.\<close>

definition frame :: "addr list \<Rightarrow> store \<Rightarrow> store \<Rightarrow> bool" where
  "frame rs st st' \<longleftrightarrow>
     next_addr st' = next_addr st \<and> (\<forall>x. x \<notin> set rs \<longrightarrow> objs st' x = objs st x)"

text \<open>The search through a reference does what the search on the grid value does.\<close>

definition refines :: "store \<Rightarrow> addr \<Rightarrow> addr list \<Rightarrow> (error + bool \<times> grid) option \<Rightarrow> (error + bool \<times> store) option \<Rightarrow> bool" where
  "refines st a rs res res_ref \<longleftrightarrow>
     (case res of
        None \<Rightarrow> res_ref = None
      | Some (Inl e) \<Rightarrow> res_ref = Some (Inl e)
      | Some (Inr (b, g')) \<Rightarrow>
          (\<exists>st'. res_ref = Some (Inr (b, st')) \<and> owns st' a rs g' \<and> frame rs st st'))"

text \<open>A store that holds just the grid \<open>g\<close>: its rows at \<open>0..length g - 1\<close>, the grid at \<open>length g\<close>.\<close>

definition store_of :: "grid \<Rightarrow> store" where
  "store_of g =
     \<lparr>objs = (\<lambda>x. if x < length g then Some (RowObj (g ! x))
                  else if x = length g then Some (GridObj [0..<length g]) else None),
      next_addr = Suc (length g)\<rparr>"

section \<open>Array access on a 9x9 grid\<close>

lemma cell_in_range:
  "grid9x9 g \<Longrightarrow> r < 9 \<Longrightarrow> c < 9 \<Longrightarrow> cell g (int r) (int c) = Inr (g ! r ! c)"
  by (simp add: cell_def row_at_def elem_at_def grid9x9_def)

lemma cell_is_in_range:
  "grid9x9 g \<Longrightarrow> r < 9 \<Longrightarrow> c < 9 \<Longrightarrow> cell_is g (int r) (int c) val = Inr (g ! r ! c = val)"
  by (simp add: cell_is_def cell_in_range)

lemma lines_in_range:
  "grid9x9 g \<Longrightarrow> row < 9 \<Longrightarrow> col < 9 \<Longrightarrow> \<forall>i\<in>set is. i < 9 \<Longrightarrow>
   isValidPlacement_lines g (int row) (int col) val (map int is) =
     Inr (\<forall>i\<in>set is. (i \<noteq> col \<longrightarrow> g ! row ! i \<noteq> val) \<and> (i \<noteq> row \<longrightarrow> g ! i ! col \<noteq> val))"
  by (induction "is") (auto simp: and_then_def cell_is_in_range split: bool.splits)

lemma box_in_range:
  "grid9x9 g \<Longrightarrow> \<forall>(r, c)\<in>set ps. r < 9 \<and> c < 9 \<Longrightarrow>
   isValidPlacement_box g (int row) (int col) val (map (\<lambda>(r, c). (int r, int c)) ps) =
     Inr (\<forall>(r, c)\<in>set ps. (r \<noteq> row \<or> c \<noteq> col) \<longrightarrow> g ! r ! c \<noteq> val)"
  by (induction ps) (auto simp: and_then_def cell_is_in_range split: bool.splits)

lemma box_cells_nat:
  "List.product [int row div 3 * 3, int row div 3 * 3 + 1, int row div 3 * 3 + 2]
                [int col div 3 * 3, int col div 3 * 3 + 1, int col div 3 * 3 + 2] =
   map (\<lambda>(r, c). (int r, int c))
     (List.product [row div 3 * 3, row div 3 * 3 + 1, row div 3 * 3 + 2]
                   [col div 3 * 3, col div 3 * 3 + 1, col div 3 * 3 + 2])"
  by (simp add: zdiv_int)

lemma same_box: "(r::nat) div 3 = row div 3 \<longleftrightarrow>
   r = row div 3 * 3 \<or> r = row div 3 * 3 + 1 \<or> r = row div 3 * 3 + 2"
  by arith

lemma in_box_cells: "(r, c) \<in> set (box_cells row col) \<longleftrightarrow> r div 3 = row div 3 \<and> c div 3 = col div 3"
  unfolding box_cells_def same_box[of r row] same_box[of c col] by auto

lemma same_box_bound: "(r::nat) div 3 = row div 3 \<Longrightarrow> row < 9 \<Longrightarrow> r < 9"
  by arith

lemma box_cells_bound: "row < 9 \<Longrightarrow> col < 9 \<Longrightarrow> (r, c) \<in> set (box_cells row col) \<Longrightarrow> r < 9 \<and> c < 9"
  unfolding in_box_cells using same_box_bound by blast

lemma isValidPlacement_eq:
  assumes "grid9x9 g" "row < 9" "col < 9"
  shows "isValidPlacement g (int row) (int col) val =
     Inr ((\<forall>i\<in>set [0..<9]. (i \<noteq> col \<longrightarrow> g ! row ! i \<noteq> val) \<and> (i \<noteq> row \<longrightarrow> g ! i ! col \<noteq> val))
        \<and> (\<forall>(r, c)\<in>set (box_cells row col). (r \<noteq> row \<or> c \<noteq> col) \<longrightarrow> g ! r ! c \<noteq> val))"
proof -
  have b: "\<forall>(r, c)\<in>set (box_cells row col). r < 9 \<and> c < 9"
    using box_cells_bound[OF assms(2,3)] by blast
  have l: "\<forall>i\<in>set [0..<9]. i < 9" by simp
  show ?thesis
    unfolding isValidPlacement_def Let_def box_cells_nat box_cells_def[symmetric]
      lines_in_range[OF assms l] box_in_range[OF assms(1) b]
    by (simp split: bool.splits)
qed

lemma isValidPlacement_in_range:
  assumes "grid9x9 g" "row < 9" "col < 9"
  shows "isValidPlacement g (int row) (int col) val = Inr (no_peer_holds g row col val)"
proof -
  have "((\<forall>i\<in>set [0..<9]. (i \<noteq> col \<longrightarrow> g ! row ! i \<noteq> val) \<and> (i \<noteq> row \<longrightarrow> g ! i ! col \<noteq> val))
        \<and> (\<forall>(r, c)\<in>set (box_cells row col). (r \<noteq> row \<or> c \<noteq> col) \<longrightarrow> g ! r ! c \<noteq> val))
       = no_peer_holds g row col val" (is "?L = ?R")
  proof
    assume L: ?L
    have L1: "\<And>i. i < 9 \<Longrightarrow> i \<noteq> col \<Longrightarrow> g ! row ! i \<noteq> val" using L by simp
    have L2: "\<And>i. i < 9 \<Longrightarrow> i \<noteq> row \<Longrightarrow> g ! i ! col \<noteq> val" using L by simp
    have L3: "\<And>r c. (r, c) \<in> set (box_cells row col) \<Longrightarrow> r \<noteq> row \<or> c \<noteq> col \<Longrightarrow> g ! r ! c \<noteq> val"
      using L by blast
    show ?R unfolding no_peer_holds_def
    proof (intro ballI impI)
      fix r c assume rc: "r \<in> {0..<9}" "c \<in> {0..<9}" and p: "peer row col r c"
      consider "r = row" "c \<noteq> col" | "c = col" "r \<noteq> row"
        | "r div 3 = row div 3" "c div 3 = col div 3" "r \<noteq> row \<or> c \<noteq> col"
        using p unfolding peer_def by blast
      then show "g ! r ! c \<noteq> val"
      proof cases
        case 1 then show ?thesis using L1[of c] rc by simp
      next
        case 2 then show ?thesis using L2[of r] rc by simp
      next
        case 3
        have "(r, c) \<in> set (box_cells row col)" using 3(1,2) by (simp add: in_box_cells)
        then show ?thesis using L3 3(3) by blast
      qed
    qed
  next
    assume R: ?R
    have 1: "\<And>r c. r < 9 \<Longrightarrow> c < 9 \<Longrightarrow> peer row col r c \<Longrightarrow> g ! r ! c \<noteq> val"
      using R unfolding no_peer_holds_def by simp
    have a: "\<And>i. i < 9 \<Longrightarrow> i \<noteq> col \<Longrightarrow> g ! row ! i \<noteq> val"
      using 1 assms by (simp add: peer_def)
    have b: "\<And>i. i < 9 \<Longrightarrow> i \<noteq> row \<Longrightarrow> g ! i ! col \<noteq> val"
      using 1 assms by (simp add: peer_def)
    have c: "\<And>r c. (r, c) \<in> set (box_cells row col) \<Longrightarrow> r \<noteq> row \<or> c \<noteq> col \<Longrightarrow> g ! r ! c \<noteq> val"
    proof -
      fix r c assume m: "(r, c) \<in> set (box_cells row col)" and ne: "r \<noteq> row \<or> c \<noteq> col"
      have d: "r div 3 = row div 3" "c div 3 = col div 3"
        using m by (simp_all add: in_box_cells)
      have "r < 9 \<and> c < 9" using box_cells_bound[OF assms(2,3) m] .
      then show "g ! r ! c \<noteq> val" using 1[of r c] ne d by (simp add: peer_def)
    qed
    show ?L using a b c by auto
  qed
  with isValidPlacement_eq[OF assms] show ?thesis by simp
qed

section \<open>Finding and writing cells on a 9x9 grid\<close>

lemma findEmpty_scan_in_range:
  "grid9x9 g \<Longrightarrow> \<forall>(r, c)\<in>set ps. r < 9 \<and> c < 9 \<Longrightarrow>
   (\<exists>r c. findEmpty_scan g ps = Inr (Some (r, c)) \<and> (r, c) \<in> set ps \<and> g ! r ! c = Num 0) \<or>
   (findEmpty_scan g ps = Inr None \<and> (\<forall>(r, c)\<in>set ps. g ! r ! c \<noteq> Num 0))"
  by (induction ps) (auto simp: cell_is_in_range split: bool.splits)

lemma all_cells: "set (List.product [0..<9] [0..<9]) = {0..<9} \<times> {0..<9}"
  by (simp only: set_product set_upt)

lemma findEmpty_cases:
  assumes "grid9x9 g"
  shows "(\<exists>r c. findEmpty g = Inr (Some (r, c)) \<and> r < 9 \<and> c < 9 \<and> g ! r ! c = Num 0) \<or>
         (findEmpty g = Inr None \<and> empty_cells g = {})"
proof -
  have "\<forall>(r, c)\<in>set (List.product [0..<9] [0..<9]). r < 9 \<and> c < 9"
    unfolding all_cells by auto
  from findEmpty_scan_in_range[OF assms this]
  show ?thesis unfolding findEmpty_def[symmetric] all_cells empty_cells_def by auto
qed

lemma grid9x9_row: "grid9x9 g \<Longrightarrow> r < 9 \<Longrightarrow> length (g ! r) = 9"
  unfolding grid9x9_def using nth_mem[of r g] by auto

lemma set_cell_in_range:
  "grid9x9 g \<Longrightarrow> r < 9 \<Longrightarrow> c < 9 \<Longrightarrow> set_cell g r c v = Inr (put g r c v)"
  by (simp add: set_cell_def array_set_def put_def grid9x9_row) (simp add: grid9x9_def)

lemma grid9x9_put: "grid9x9 g \<Longrightarrow> grid9x9 (put g r c v)"
proof (cases "r < length g")
  case True
  assume g: "grid9x9 g"
  have "set (put g r c v) \<subseteq> insert ((g ! r)[c := v]) (set g)"
    unfolding put_def by (rule set_update_subset_insert)
  moreover have "length ((g ! r)[c := v]) = 9"
    using g True nth_mem[OF True] by (simp add: grid9x9_def)
  ultimately show ?thesis using g by (auto simp: grid9x9_def put_def)
next
  case False
  then show "grid9x9 g \<Longrightarrow> grid9x9 (put g r c v)" by (simp add: put_def list_update_beyond)
qed

lemma put_nth:
  "grid9x9 g \<Longrightarrow> r < 9 \<Longrightarrow> c < 9 \<Longrightarrow> r' < 9 \<Longrightarrow> c' < 9 \<Longrightarrow>
   put g r c v ! r' ! c' = (if r' = r \<and> c' = c then v else g ! r' ! c')"
proof -
  assume a: "grid9x9 g" "r < 9" "c < 9" "r' < 9" "c' < 9"
  have lg: "length g = 9" using a(1) by (simp add: grid9x9_def)
  have lr: "length (g ! r) = 9" using a(1,2) by (rule grid9x9_row)
  show ?thesis unfolding put_def using a(2-) lg lr by (simp add: nth_list_update)
qed

lemma put_restore: "g ! r ! c = x \<Longrightarrow> put (put g r c v) r c x = g"
  by (cases "r < length g") (auto simp: put_def list_update_beyond)

lemma finite_empty_cells: "finite (empty_cells g)"
  by (rule finite_subset[of _ "{0..<9} \<times> {0..<9}"]) (auto simp: empty_cells_def)

lemma empty_cells_put:
  assumes "grid9x9 g" "r < 9" "c < 9" "v \<noteq> Num 0"
  shows "empty_cells (put g r c v) = empty_cells g - {(r, c)}"
  using assms by (auto simp: empty_cells_def put_nth split: if_splits)

lemma card_empty_cells_put:
  assumes "grid9x9 g" "r < 9" "c < 9" "v \<noteq> Num 0" "g ! r ! c = Num 0"
  shows "Suc (card (empty_cells (put g r c v))) = card (empty_cells g)"
proof -
  have "(r, c) \<in> empty_cells g" using assms by (simp add: empty_cells_def)
  then show ?thesis
    unfolding empty_cells_put[OF assms(1-4)]
    using finite_empty_cells[of g] by (simp only: card_Suc_Diff1)
qed

lemma card_empty_cells_le: "card (empty_cells g) \<le> 81"
proof -
  have "card (empty_cells g) \<le> card ({0..<9::nat} \<times> {0..<9::nat})"
    by (rule card_mono) (auto simp: empty_cells_def)
  then show ?thesis by simp
qed

section \<open>Completions\<close>

lemma peer_sym: "peer r c r' c' \<Longrightarrow> peer r' c' r c"
  unfolding peer_def by auto

lemma no_peer_holdsD:
  "no_peer_holds g r c x \<Longrightarrow> r' < 9 \<Longrightarrow> c' < 9 \<Longrightarrow> peer r c r' c' \<Longrightarrow> g ! r' ! c' \<noteq> x"
  unfolding no_peer_holds_def by simp

lemma cell_passes_iff:
  "grid9x9 g \<Longrightarrow> r < 9 \<Longrightarrow> c < 9 \<Longrightarrow> cell_passes g (r, c) \<longleftrightarrow> no_peer_holds g r c (g ! r ! c)"
  by (simp add: cell_passes_def isValidPlacement_in_range)

lemma completion_ofD:
  "completion_of g g' \<Longrightarrow> r < 9 \<Longrightarrow> c < 9 \<Longrightarrow>
   (if g ! r ! c = Num 0 then g' ! r ! c \<in> Num ` set DIGITS else g' ! r ! c = g ! r ! c)"
  unfolding completion_of_def by auto

lemma Num0_notin_DIGITS: "Num 0 \<notin> Num ` set DIGITS"
  by (auto simp: DIGITS_def)

lemma completes_refl: "grid9x9 g \<Longrightarrow> empty_cells g = {} \<Longrightarrow> completes g g"
  unfolding completes_def completion_of_def empty_cells_def by auto

lemma completes_step:
  assumes g: "grid9x9 g" "r < 9" "c < 9" "g ! r ! c = Num 0"
    and v: "v \<in> set DIGITS"
    and ok: "no_peer_holds (put g r c (Num v)) r c (Num v)"
    and c: "completes (put g r c (Num v)) g'"
  shows "completes g g'"
proof -
  let ?g1 = "put g r c (Num v)"
  have g1: "grid9x9 ?g1" using g(1) by (rule grid9x9_put)
  have g': "grid9x9 g'" and co: "completion_of ?g1 g'"
    and pass: "\<And>p. p \<in> empty_cells ?g1 \<Longrightarrow> cell_passes g' p"
    using c unfolding completes_def completion_of_def by auto
  have vne: "Num v \<noteq> Num 0" using v by (auto simp: DIGITS_def)
  have at: "\<And>r' c'. r' < 9 \<Longrightarrow> c' < 9 \<Longrightarrow>
      ?g1 ! r' ! c' = (if r' = r \<and> c' = c then Num v else g ! r' ! c')"
    using g(1-3) by (simp add: put_nth)
  have g1_here: "?g1 ! r ! c = Num v" using at[OF g(2,3)] by simp
  have g1_other: "\<And>r' c'. r' < 9 \<Longrightarrow> c' < 9 \<Longrightarrow> \<not> (r' = r \<and> c' = c) \<Longrightarrow>
      ?g1 ! r' ! c' = g ! r' ! c'"
    using at by auto
  have here: "g' ! r ! c = Num v"
    using completion_ofD[OF co g(2,3)] g1_here vne by simp
  have comp: "completion_of g g'"
    unfolding completion_of_def
  proof (intro conjI ballI)
    show "grid9x9 g'" by (rule g')
  next
    fix p :: "nat \<times> nat" assume p: "p \<in> {0..<9} \<times> {0..<9}"
    obtain r' c' where rc: "p = (r', c')" "r' < 9" "c' < 9" using p by auto
    have "if g ! r' ! c' = Num 0 then g' ! r' ! c' \<in> Num ` set DIGITS else g' ! r' ! c' = g ! r' ! c'"
    proof (cases "r' = r \<and> c' = c")
      case True
      then show ?thesis using here g(4) v by simp
    next
      case False
      then show ?thesis using completion_ofD[OF co rc(2,3)] g1_other[OF rc(2,3)] by simp
    qed
    then show "case p of (r, c) \<Rightarrow>
        if g ! r ! c = Num 0 then g' ! r ! c \<in> Num ` set DIGITS else g' ! r ! c = g ! r ! c"
      using rc(1) by simp
  qed
  have "cell_passes g' p" if p: "p \<in> empty_cells g" for p
  proof -
    obtain r' c' where rc: "p = (r', c')" "r' < 9" "c' < 9" "g ! r' ! c' = Num 0"
      using p unfolding empty_cells_def by auto
    show ?thesis
    proof (cases "r' = r \<and> c' = c")
      case False
      then have "p \<in> empty_cells ?g1"
        using rc g1_other[OF rc(2,3)] unfolding empty_cells_def by simp
      then show ?thesis by (rule pass)
    next
      case True
      have "no_peer_holds g' r c (Num v)"
        unfolding no_peer_holds_def
      proof (intro ballI impI)
        fix r2 c2 :: nat assume "r2 \<in> {0..<9}" "c2 \<in> {0..<9}" and pe: "peer r c r2 c2"
        then have b: "r2 < 9" "c2 < 9" by simp_all
        have ne: "\<not> (r2 = r \<and> c2 = c)" using pe unfolding peer_def by blast
        show "g' ! r2 ! c2 \<noteq> Num v"
        proof (cases "?g1 ! r2 ! c2 = Num 0")
          case False
          then have "g' ! r2 ! c2 = ?g1 ! r2 ! c2" using completion_ofD[OF co b] by simp
          then show ?thesis using no_peer_holdsD[OF ok b pe] by simp
        next
          case True
          then have "(r2, c2) \<in> empty_cells ?g1" using b unfolding empty_cells_def by simp
          then have "cell_passes g' (r2, c2)" by (rule pass)
          then have "no_peer_holds g' r2 c2 (g' ! r2 ! c2)"
            using cell_passes_iff[OF g' b] by simp
          from no_peer_holdsD[OF this g(2,3) peer_sym[OF pe]] here
          show ?thesis by simp
        qed
      qed
      then show ?thesis using True rc(1) here cell_passes_iff[OF g' g(2,3)] by simp
    qed
  qed
  with comp show ?thesis unfolding completes_def by blast
qed

section \<open>The search returns, restores the grid on failure and completes it on success\<close>

declare backtrack.simps [simp del] fill.simps [simp del]

lemma DIGITS_nonzero: "v \<in> set DIGITS \<Longrightarrow> Num v \<noteq> Num 0"
  by (auto simp: DIGITS_def)

lemma search_ok_False: "search_ok g (Some (Inr (False, g)))"
  unfolding search_ok_def by (intro exI[of _ False] exI[of _ g]) simp

lemma search_ok_True: "completes g g' \<Longrightarrow> search_ok g (Some (Inr (True, g')))"
  unfolding search_ok_def by (intro exI[of _ True] exI[of _ g']) simp

lemma backtrack_loop_ok:
  assumes IH: "\<And>h. grid9x9 h \<Longrightarrow> card (empty_cells h) \<le> m \<Longrightarrow> search_ok h (backtrack m h)"
    and g: "grid9x9 g" "r < 9" "c < 9" "g ! r ! c = Num 0" "card (empty_cells g) \<le> Suc m"
  shows "set vs \<subseteq> set DIGITS \<Longrightarrow> search_ok g (backtrack_loop (Suc m) r c vs g)"
proof (induction vs)
  case Nil
  show ?case by (simp add: search_ok_False)
next
  case (Cons v vs)
  let ?g1 = "put g r c (Num v)"
  have v: "v \<in> set DIGITS" and vs: "set vs \<subseteq> set DIGITS" using Cons.prems by simp_all
  have rest: "search_ok g (backtrack_loop (Suc m) r c vs g)" using Cons.IH[OF vs] .
  have g1: "grid9x9 ?g1" using g(1) by (rule grid9x9_put)
  have w1: "set_cell g r c (Num v) = Inr ?g1" using g(1-3) by (rule set_cell_in_range)
  have w2: "set_cell ?g1 r c (Num 0) = Inr g"
    using set_cell_in_range[OF g1 g(2,3), of "Num 0"] put_restore[OF g(4)] by simp
  have chk: "isValidPlacement ?g1 (int r) (int c) (Num v) = Inr (no_peer_holds ?g1 r c (Num v))"
    using g1 g(2,3) by (rule isValidPlacement_in_range)
  show ?case
  proof (cases "no_peer_holds ?g1 r c (Num v)")
    case False
    then show ?thesis using rest by (simp add: w1 w2 chk)
  next
    case True
    have "Suc (card (empty_cells ?g1)) = card (empty_cells g)"
      using g(1-3) DIGITS_nonzero[OF v] g(4) by (rule card_empty_cells_put)
    then have "card (empty_cells ?g1) \<le> m" using g(5) by simp
    from IH[OF g1 this] obtain b g' where
      res: "backtrack m ?g1 = Some (Inr (b, g'))" and
      out: "if b then completes ?g1 g' else g' = ?g1"
      unfolding search_ok_def by blast
    show ?thesis
    proof (cases b)
      case True
      then have "completes g g'"
        using completes_step[OF g(1-4) v \<open>no_peer_holds ?g1 r c (Num v)\<close>] out by simp
      then show ?thesis
        using True \<open>no_peer_holds ?g1 r c (Num v)\<close> by (simp add: w1 chk res search_ok_True)
    next
      case False
      then have "g' = ?g1" using out by simp
      then show ?thesis
        using False rest \<open>no_peer_holds ?g1 r c (Num v)\<close> by (simp add: w1 w2 chk res)
    qed
  qed
qed

lemma backtrack_ok:
  "grid9x9 g \<Longrightarrow> card (empty_cells g) \<le> n \<Longrightarrow> search_ok g (backtrack n g)"
proof (induction n arbitrary: g)
  case 0
  then have e: "empty_cells g = {}" using finite_empty_cells[of g] by simp
  then have "findEmpty g = Inr None"
    using findEmpty_cases[OF "0.prems"(1)] by (auto simp: empty_cells_def)
  then show ?case using completes_refl[OF "0.prems"(1) e] by (simp add: backtrack.simps search_ok_True)
next
  case (Suc m)
  from findEmpty_cases[OF Suc.prems(1)] show ?case
  proof (elim disjE exE conjE)
    fix r c assume f: "findEmpty g = Inr (Some (r, c))" and rc: "r < 9" "c < 9" "g ! r ! c = Num 0"
    have "search_ok g (backtrack_loop (Suc m) r c DIGITS g)"
      using backtrack_loop_ok[OF Suc.IH Suc.prems(1) rc Suc.prems(2)] by simp
    then show ?thesis by (simp add: backtrack.simps f)
  next
    assume "findEmpty g = Inr None" and e: "empty_cells g = {}"
    then show ?thesis using completes_refl[OF Suc.prems(1) e] by (simp add: backtrack.simps search_ok_True)
  qed
qed

section \<open>What the solver returns, and the placement rule\<close>

lemma cloneGrid_id: "cloneGrid g = g"
  by (simp add: cloneGrid_def)

lemma solveSudoku_ok:
  assumes "grid9x9 g" "card (empty_cells g) \<le> n"
  shows "\<exists>b g'. solveSudoku n g = Some (Inr \<lparr>solved = b, grid = g'\<rparr>) \<and>
           (if b then completes g g' else g' = g)"
proof -
  from backtrack_ok[OF assms] obtain b g' where
    "backtrack n g = Some (Inr (b, g'))" "if b then completes g g' else g' = g"
    unfolding search_ok_def by blast
  then show ?thesis by (simp add: solveSudoku_def cloneGrid_id)
qed

lemma solveSudoku_81:
  assumes "grid9x9 g" "81 \<le> n"
  shows "\<exists>b g'. solveSudoku n g = Some (Inr \<lparr>solved = b, grid = g'\<rparr>) \<and>
           (if b then completes g g' else g' = g)"
  using solveSudoku_ok[OF assms(1), of n] card_empty_cells_le[of g] assms(2) by simp

lemma solveSudoku_full:
  assumes "grid9x9 g" "empty_cells g = {}"
  shows "solveSudoku n g = Some (Inr \<lparr>solved = True, grid = g\<rparr>)"
proof -
  have "findEmpty g = Inr None"
    using findEmpty_cases[OF assms(1)] assms(2) by (auto simp: empty_cells_def)
  then show ?thesis by (simp add: solveSudoku_def cloneGrid_id backtrack.simps)
qed

lemma completes_full: "completes g g' \<Longrightarrow> grid9x9 g' \<and> empty_cells g' = {}"
proof -
  assume c: "completes g g'"
  then have co: "completion_of g g'" by (simp add: completes_def)
  have "g' ! r ! c \<noteq> Num 0" if "r < 9" "c < 9" for r c
    using completion_ofD[OF co that] Num0_notin_DIGITS by (auto split: if_splits)
  then show ?thesis using co by (auto simp: empty_cells_def completion_of_def)
qed

text \<open>
  C1. On a 9x9 grid, for a row and a column in 0..8, \<open>isValidPlacement\<close> returns true
  exactly when no other cell of the same row, column or 3x3 box holds the value; what the
  cell itself holds does not matter. (Nothing is asked of the entries or of the value, so
  the statement covers entries in 0..9 and values in 1..9.)
\<close>

theorem isValidPlacement_iff_no_other_cell:
  assumes "grid9x9 g" "row < 9" "col < 9"
  shows "isValidPlacement g (int row) (int col) (Num v) = Inr (no_peer_holds g row col (Num v))
       \<and> isValidPlacement (put g row col x) (int row) (int col) (Num v)
           = isValidPlacement g (int row) (int col) (Num v)"
proof -
  have "no_peer_holds (put g row col x) row col (Num v) = no_peer_holds g row col (Num v)"
    unfolding no_peer_holds_def using assms by (auto simp: put_nth peer_def)
  then show ?thesis
    using isValidPlacement_in_range[OF assms] isValidPlacement_in_range[OF grid9x9_put[OF assms(1)] assms(2,3)]
    by simp
qed

theorem isValidPlacement_iff_no_other_cell_witness:
  "isValidPlacement example_puzzle (int 8) (int 8) (Num 9) = Inr True
   \<and> no_peer_holds example_puzzle 8 8 (Num 9)
   \<and> isValidPlacement example_puzzle (int 8) (int 8) (Num 7) = Inr False
   \<and> isValidPlacement (put example_puzzle 8 8 (Num 9)) (int 8) (int 8) (Num 9) = Inr True"
proof -
  have g: "grid9x9 example_puzzle" by code_simp
  have a: "isValidPlacement example_puzzle (int 8) (int 8) (Num 9) = Inr True" by code_simp
  have b: "isValidPlacement example_puzzle (int 8) (int 8) (Num 7) = Inr False" by code_simp
  show ?thesis
    using isValidPlacement_iff_no_other_cell[OF g, of 8 8 9 "Num 9"] a b by simp
qed

section \<open>A larger depth bound does not change the answer\<close>

lemma backtrack_loop_deeper:
  assumes IH: "\<And>m h y. n = Suc m \<Longrightarrow> backtrack m h = Some y \<Longrightarrow> backtrack n h = Some y"
  shows "backtrack_loop n r c vs g = Some x \<Longrightarrow> backtrack_loop (Suc n) r c vs g = Some x"
proof (induction vs arbitrary: g)
  case Nil
  then show ?case by simp
next
  case (Cons v vs)
  show ?case
  proof (cases "set_cell g r c (Num v)")
    case (Inl e)
    then show ?thesis using Cons.prems by simp
  next
    case w: (Inr g1)
    show ?thesis
    proof (cases "isValidPlacement g1 (int r) (int c) (Num v)")
      case (Inl e)
      then show ?thesis using Cons.prems w by simp
    next
      case chk: (Inr ok)
      show ?thesis
      proof (cases ok)
        case False
        then show ?thesis
          using Cons.prems Cons.IH w chk by (auto split: sum.splits)
      next
        case True
        show ?thesis
        proof (cases n)
          case 0
          then show ?thesis using Cons.prems w chk True by simp
        next
          case (Suc m)
          obtain y where y: "backtrack m g1 = Some y"
            using Cons.prems w chk True Suc by (cases "backtrack m g1") auto
          have y': "backtrack n g1 = Some y" using IH[OF Suc y] .
          show ?thesis
            using Cons.prems Cons.IH w chk True y y' Suc
            by (auto split: sum.splits bool.splits)
        qed
      qed
    qed
  qed
qed

lemma backtrack_deeper: "backtrack n g = Some x \<Longrightarrow> backtrack (Suc n) g = Some x"
proof (induction n arbitrary: g x)
  case 0
  have "backtrack_loop (Suc 0) r c DIGITS g = Some x"
    if l: "backtrack_loop 0 r c DIGITS g = Some x" for r c
    by (rule backtrack_loop_deeper[OF _ l]) simp
  then show ?case using "0.prems"
    by (auto simp: backtrack.simps split: sum.splits option.splits)
next
  case (Suc m)
  have "backtrack_loop (Suc (Suc m)) r c DIGITS g = Some x"
    if l: "backtrack_loop (Suc m) r c DIGITS g = Some x" for r c
  proof (rule backtrack_loop_deeper[OF _ l])
    fix m' h y assume "Suc m = Suc m'" "backtrack m' h = Some y"
    then show "backtrack (Suc m) h = Some y" using Suc.IH by simp
  qed
  then show ?case using Suc.prems
    by (auto simp: backtrack.simps split: sum.splits option.splits)
qed

lemma backtrack_any_depth:
  "backtrack n g = Some x \<Longrightarrow> n \<le> n' \<Longrightarrow> backtrack n' g = Some x"
proof (induction n' arbitrary: n)
  case 0
  then show ?case by simp
next
  case (Suc k)
  show ?case
  proof (cases "n = Suc k")
    case True
    then show ?thesis using Suc.prems by simp
  next
    case False
    then have "n \<le> k" using Suc.prems by simp
    from backtrack_deeper[OF Suc.IH[OF Suc.prems(1) this]] show ?thesis .
  qed
qed

lemma solveSudoku_any_depth:
  assumes "grid9x9 g" "81 \<le> n"
  shows "solveSudoku n g = solveSudoku 81 g"
proof -
  have "card (empty_cells g) \<le> 81" by (rule card_empty_cells_le)
  from backtrack_ok[OF assms(1) this] obtain x where x: "backtrack 81 g = Some x"
    unfolding search_ok_def by blast
  from backtrack_any_depth[OF x assms(2)] x show ?thesis
    by (simp add: solveSudoku_def cloneGrid_id)
qed

section \<open>Claims about the solver\<close>

text \<open>
  The solver and the generator are run with a bound \<open>n\<close> on the nesting of recursive
  calls. The statements below ask for \<open>81 \<le> n\<close>; by C8 that bound is never reached on a
  9x9 grid and the result does not depend on it.
\<close>

text \<open>
  C6. A 9x9 grid without an empty cell is returned as it is, with \<open>solved = true\<close>,
  whatever bound on the recursion depth is given.
\<close>

theorem solve_full_grid_unchanged:
  assumes "grid9x9 g" "empty_cells g = {}"
  shows "solveSudoku n g = Some (Inr \<lparr>solved = True, grid = g\<rparr>)"
  using assms by (rule solveSudoku_full)

theorem solve_full_grid_unchanged_witness:
  "solveSudoku 81 example_solution = Some (Inr \<lparr>solved = True, grid = example_solution\<rparr>)"
proof -
  have g: "grid9x9 example_solution" by code_simp
  have e: "empty_cells example_solution = {}" by code_simp
  show ?thesis using solve_full_grid_unchanged[OF g e, of 81] .
qed

text \<open>
  C10. When the solver answers \<open>solved = false\<close> on a 9x9 grid, the grid it returns is the
  input: every tentative placement has been undone.
\<close>

theorem solve_failure_returns_input:
  assumes "grid9x9 g" "81 \<le> n"
  shows "\<exists>res. solveSudoku n g = Some (Inr res) \<and> (\<not> solved res \<longrightarrow> grid res = g)"
proof -
  from solveSudoku_81[OF assms] obtain b g' where
    r: "solveSudoku n g = Some (Inr \<lparr>solved = b, grid = g'\<rparr>)"
    and o: "if b then completes g g' else g' = g" by blast
  from o have "\<not> b \<longrightarrow> g' = g" by simp
  with r show ?thesis by simp
qed

theorem solve_failure_returns_input_witness:
  "solveSudoku 81 example_unsolvable = Some (Inr \<lparr>solved = False, grid = example_unsolvable\<rparr>)"
proof -
  have g: "grid9x9 example_unsolvable" by code_simp
  have f: "(case solveSudoku 81 example_unsolvable of Some (Inr res) \<Rightarrow> \<not> solved res | _ \<Rightarrow> False)"
    by code_simp
  from solve_failure_returns_input[OF g, of 81] obtain res where
    r: "solveSudoku 81 example_unsolvable = Some (Inr res)"
    and i: "\<not> solved res \<longrightarrow> grid res = example_unsolvable" by auto
  from f r have "\<not> solved res" by simp
  with i have "res = \<lparr>solved = False, grid = example_unsolvable\<rparr>" by simp
  with r show ?thesis by simp
qed

text \<open>
  C7. Solving the grid that \<open>solveSudoku\<close> returned gives that same result again, so the
  returned grid is a fixed point.
\<close>

theorem solve_idempotent:
  assumes "grid9x9 g" "81 \<le> n"
  shows "\<exists>res. solveSudoku n g = Some (Inr res) \<and>
           (\<exists>res2. solveSudoku n (grid res) = Some (Inr res2) \<and> grid res2 = grid res)"
proof -
  from solveSudoku_81[OF assms] obtain b g' where
    r: "solveSudoku n g = Some (Inr \<lparr>solved = b, grid = g'\<rparr>)"
    and o: "if b then completes g g' else g' = g" by blast
  have "solveSudoku n g' = Some (Inr \<lparr>solved = b, grid = g'\<rparr>)"
  proof (cases b)
    case True
    then have "grid9x9 g' \<and> empty_cells g' = {}" using o completes_full by simp
    then show ?thesis using True solveSudoku_full by simp
  next
    case False
    then show ?thesis using o r by simp
  qed
  with r show ?thesis by simp
qed

theorem solve_idempotent_witness:
  "\<exists>res. solveSudoku 81 example_puzzle = Some (Inr res) \<and>
      (\<exists>res2. solveSudoku 81 (grid res) = Some (Inr res2) \<and> grid res2 = grid res)"
proof -
  have g: "grid9x9 example_puzzle" by code_simp
  show ?thesis using solve_idempotent[OF g, of 81] by simp
qed

text \<open>
  C8. On a 9x9 grid the solver returns: recursive calls of \<open>backtrack\<close> never nest deeper
  than 81 below the first call, since each is made on a grid with one empty cell fewer;
  and each call tries the 9 values of \<open>DIGITS\<close>. With the depth bound 81 or any larger
  bound the solver returns, and it returns the same result.
\<close>

theorem solve_terminates_within_depth_81:
  assumes "grid9x9 g"
  shows "(\<forall>n\<ge>81. \<exists>res. solveSudoku n g = Some (Inr res))
       \<and> (\<forall>n\<ge>81. solveSudoku n g = solveSudoku 81 g)
       \<and> (\<forall>r c v. findEmpty g = Inr (Some (r, c)) \<and> v \<in> set DIGITS \<longrightarrow>
            (\<exists>g1. set_cell g r c (Num v) = Inr g1 \<and> grid9x9 g1
                 \<and> card (empty_cells g1) < card (empty_cells g)))
       \<and> length DIGITS = 9"
proof (intro conjI allI impI)
  fix n :: nat assume "81 \<le> n"
  from solveSudoku_81[OF assms this] show "\<exists>res. solveSudoku n g = Some (Inr res)" by blast
next
  fix n :: nat assume "81 \<le> n"
  with assms show "solveSudoku n g = solveSudoku 81 g" by (rule solveSudoku_any_depth)
next
  fix r c v assume a: "findEmpty g = Inr (Some (r, c)) \<and> v \<in> set DIGITS"
  then have rc: "r < 9" "c < 9" "g ! r ! c = Num 0"
    using findEmpty_cases[OF assms] by auto
  have "Suc (card (empty_cells (put g r c (Num v)))) = card (empty_cells g)"
    using assms rc(1,2) DIGITS_nonzero rc(3) a by (intro card_empty_cells_put) auto
  then show "\<exists>g1. set_cell g r c (Num v) = Inr g1 \<and> grid9x9 g1
                 \<and> card (empty_cells g1) < card (empty_cells g)"
    using set_cell_in_range[OF assms rc(1,2)] grid9x9_put[OF assms] by simp
next
  show "length DIGITS = 9" by (simp add: DIGITS_def)
qed

theorem solve_terminates_within_depth_81_witness:
  "(\<exists>res. solveSudoku 81 createEmptyGrid = Some (Inr res))
   \<and> (\<exists>g1. set_cell createEmptyGrid 0 0 (Num 1) = Inr g1
          \<and> card (empty_cells g1) < card (empty_cells createEmptyGrid))"
proof -
  have g: "grid9x9 createEmptyGrid" by code_simp
  have f: "findEmpty createEmptyGrid = Inr (Some (0, 0))" by code_simp
  have d: "1 \<in> set DIGITS" by (simp add: DIGITS_def)
  show ?thesis using solve_terminates_within_depth_81[OF g] f d by blast
qed

section \<open>The placement check outside its range\<close>

lemma cell_is_row_in_range:
  "grid9x9 g \<Longrightarrow> 0 \<le> r \<Longrightarrow> r \<le> 8 \<Longrightarrow> cell_is g r c val = Inr (elem_at (g ! nat r) c = val)"
  by (simp add: cell_is_def cell_def row_at_def grid9x9_def)

lemma cell_is_row_out_of_range:
  "grid9x9 g \<Longrightarrow> \<not> (0 \<le> r \<and> r \<le> 8) \<Longrightarrow> cell_is g r c val = Inl TypeError"
  by (auto simp: cell_is_def cell_def row_at_def grid9x9_def)

lemma lines_row_in_range:
  assumes "grid9x9 g" "0 \<le> row" "row \<le> 8"
  shows "\<forall>i\<in>set is. 0 \<le> i \<and> i \<le> 8 \<Longrightarrow> \<exists>b. isValidPlacement_lines g row col val is = Inr b"
  using assms
  by (induction "is") (auto simp: and_then_def cell_is_row_in_range split: bool.splits)

lemma box_row_in_range:
  assumes "grid9x9 g"
  shows "\<forall>(r, c)\<in>set ps. 0 \<le> r \<and> r \<le> 8 \<Longrightarrow> \<exists>b. isValidPlacement_box g row col val ps = Inr b"
  using assms
  by (induction ps) (auto simp: and_then_def cell_is_row_in_range split: bool.splits)

lemma box_rows_bound: "0 \<le> (row::int) \<Longrightarrow> row \<le> 8 \<Longrightarrow>
   0 \<le> row div 3 * 3 \<and> row div 3 * 3 + 2 \<le> 8"
  by arith

lemma isValidPlacement_row_in_range:
  assumes "grid9x9 g" "0 \<le> row" "row \<le> 8"
  shows "\<exists>b. isValidPlacement g row col val = Inr b"
proof -
  obtain b1 where b1: "isValidPlacement_lines g row col val (map int [0..<9]) = Inr b1"
    using lines_row_in_range[OF assms, of "map int [0..<9]"] by auto
  define ps where "ps = List.product [row div 3 * 3, row div 3 * 3 + 1, row div 3 * 3 + 2]
                [col div 3 * 3, col div 3 * 3 + 1, col div 3 * 3 + 2]"
  have "\<forall>(r, c)\<in>set ps. 0 \<le> r \<and> r \<le> 8"
    unfolding ps_def using box_rows_bound[OF assms(2,3)] by auto
  from box_row_in_range[OF assms(1) this] obtain b2 where
    b2: "isValidPlacement_box g row col val ps = Inr b2" by blast
  have "isValidPlacement g row col val = Inr (b1 \<and> b2)"
    unfolding isValidPlacement_def Let_def ps_def[symmetric] b1 b2 by (cases b1) simp_all
  then show ?thesis by (rule exI)
qed

lemma upt_9: "map int [0..<9] = [0, 1, 2, 3, 4, 5, 6, 7, 8]"
  by code_simp

lemma isValidPlacement_row_out_of_range:
  assumes "grid9x9 g" "\<not> (0 \<le> row \<and> row \<le> 8)"
  shows "isValidPlacement g row col val =
           (if col = 0 \<and> g ! 0 ! 0 = val then Inr False else Inl TypeError)"
proof -
  have bad: "\<And>c. cell_is g row c val = Inl TypeError"
    using cell_is_row_out_of_range[OF assms] .
  have c00: "cell_is g 0 0 val = Inr (g ! 0 ! 0 = val)"
    using cell_is_in_range[OF assms(1), of 0 0 val] by simp
  have ne: "row \<noteq> 0" using assms(2) by auto
  show ?thesis
    unfolding isValidPlacement_def upt_9
    by (simp add: and_then_def bad c00 ne)
qed

text \<open>
  C9 (as stated): an out-of-range row, column or value makes \<open>isValidPlacement\<close> fail fast.
  It does not: column 9 and value 10 give true, and row 9 or row -1 with column 0 give
  false.
\<close>

theorem isValidPlacement_out_of_range_counterexample:
  "isValidPlacement createEmptyGrid 0 9 (Num 5) = Inr True
   \<and> isValidPlacement createEmptyGrid 0 0 (Num 10) = Inr True
   \<and> isValidPlacement example_solution 9 0 (Num 5) = Inr False
   \<and> isValidPlacement createEmptyGrid (- 1) 0 (Num 0) = Inr False"
  by code_simp

text \<open>
  C9 (amended): \<open>isValidPlacement\<close> checks no range. On a 9x9 grid, with a row in 0..8 it
  returns a boolean for every integer column and every value; with a row outside 0..8 it
  throws a TypeError, the failed read of a cell in a row that does not exist, except
  that it returns false when the column is 0 and the value is the one at \<open>g[0][0]\<close>.
\<close>

theorem isValidPlacement_no_range_check:
  assumes "grid9x9 g"
  shows "(0 \<le> row \<and> row \<le> 8 \<longrightarrow> (\<exists>b. isValidPlacement g row col val = Inr b))
       \<and> (\<not> (0 \<le> row \<and> row \<le> 8) \<longrightarrow>
            isValidPlacement g row col val =
              (if col = 0 \<and> g ! 0 ! 0 = val then Inr False else Inl TypeError))"
  using isValidPlacement_row_in_range[OF assms, of row col val]
    isValidPlacement_row_out_of_range[OF assms, of row col val]
  by blast

theorem isValidPlacement_no_range_check_witness:
  "(\<exists>b. isValidPlacement example_solution 0 9 (Num 10) = Inr b)
   \<and> isValidPlacement example_solution 9 1 (Num 5) = Inl TypeError
   \<and> isValidPlacement example_solution 9 0 (Num 5) = Inr False"
proof -
  have g: "grid9x9 example_solution" by code_simp
  have c: "example_solution ! 0 ! 0 = Num 5" by code_simp
  show ?thesis
    using isValidPlacement_no_range_check[OF g, of 0 9 "Num 10"]
      isValidPlacement_no_range_check[OF g, of 9 1 "Num 5"]
      isValidPlacement_no_range_check[OF g, of 9 0 "Num 5"] c
    by simp
qed

section \<open>The conflict scanner and conflict-free grids\<close>

lemma no_peer_holds_put_self:
  assumes "grid9x9 g" "r < 9" "c < 9"
  shows "no_peer_holds (put g r c x) r c v = no_peer_holds g r c v"
  unfolding no_peer_holds_def using assms by (auto simp: put_nth peer_def)

lemma gridHasConflicts_scan_in_range:
  assumes "grid9x9 g"
  shows "\<forall>(r, c)\<in>set ps. r < 9 \<and> c < 9 \<Longrightarrow>
     gridHasConflicts_scan g ps =
       Inr (\<exists>(r, c)\<in>set ps. g ! r ! c \<noteq> Num 0 \<and> \<not> no_peer_holds g r c (g ! r ! c))"
proof (induction ps)
  case Nil
  show ?case by simp
next
  case (Cons p ps)
  obtain r c where p: "p = (r, c)" by (cases p)
  have rc: "r < 9" "c < 9" using Cons.prems p by simp_all
  have rest: "gridHasConflicts_scan g ps =
       Inr (\<exists>(r, c)\<in>set ps. g ! r ! c \<noteq> Num 0 \<and> \<not> no_peer_holds g r c (g ! r ! c))"
    using Cons by simp
  have rd: "cell g (int r) (int c) = Inr (g ! r ! c)" using assms rc by (rule cell_in_range)
  have wr: "set_cell (cloneGrid g) r c (Num 0) = Inr (put g r c (Num 0))"
    using set_cell_in_range[OF assms rc] by (simp add: cloneGrid_id)
  have chk: "isValidPlacement (put g r c (Num 0)) (int r) (int c) (g ! r ! c)
      = Inr (no_peer_holds g r c (g ! r ! c))"
    using isValidPlacement_in_range[OF grid9x9_put[OF assms] rc]
      no_peer_holds_put_self[OF assms rc] by simp
  show ?case
    unfolding p gridHasConflicts_scan.simps rd wr rest
    by (cases "g ! r ! c = Num 0"; cases "no_peer_holds g r c (g ! r ! c)") (simp_all add: chk)
qed

lemma gridHasConflicts_iff:
  assumes "grid9x9 g"
  shows "gridHasConflicts g = Inr (\<not> conflict_free g)"
proof -
  have "\<forall>(r, c)\<in>set (List.product [0..<9] [0..<9]). r < 9 \<and> c < 9"
    unfolding all_cells by auto
  from gridHasConflicts_scan_in_range[OF assms this]
  have scan: "gridHasConflicts g =
      Inr (\<exists>(r, c)\<in>{0..<9} \<times> {0..<9}. g ! r ! c \<noteq> Num 0 \<and> \<not> no_peer_holds g r c (g ! r ! c))"
    unfolding gridHasConflicts_def[symmetric] all_cells .
  have "(\<exists>(r, c)\<in>{0..<9} \<times> {0..<9}. g ! r ! c \<noteq> Num 0 \<and> \<not> no_peer_holds g r c (g ! r ! c))
      = (\<not> conflict_free g)"
    unfolding conflict_free_def filled_cells_def by blast
  with scan show ?thesis by simp
qed

lemma conflict_freeD:
  "conflict_free g \<Longrightarrow> r < 9 \<Longrightarrow> c < 9 \<Longrightarrow> g ! r ! c \<noteq> Num 0 \<Longrightarrow> no_peer_holds g r c (g ! r ! c)"
  unfolding conflict_free_def filled_cells_def by auto

lemma completes_all_pass:
  assumes g: "grid9x9 g" and cf: "conflict_free g" and c: "completes g g'"
    and rc: "r < 9" "c < 9"
  shows "no_peer_holds g' r c (g' ! r ! c)"
proof -
  have g': "grid9x9 g'" and co: "completion_of g g'"
    and pass: "\<And>p. p \<in> empty_cells g \<Longrightarrow> cell_passes g' p"
    using c unfolding completes_def completion_of_def by auto
  have pass': "no_peer_holds g' r2 c2 (g' ! r2 ! c2)"
    if "r2 < 9" "c2 < 9" "g ! r2 ! c2 = Num 0" for r2 c2
  proof -
    have "(r2, c2) \<in> empty_cells g" using that by (simp add: empty_cells_def)
    from pass[OF this] show ?thesis using cell_passes_iff[OF g' that(1,2)] by simp
  qed
  show ?thesis
  proof (cases "g ! r ! c = Num 0")
    case True
    then show ?thesis using pass'[OF rc] by simp
  next
    case False
    then have same: "g' ! r ! c = g ! r ! c" using completion_ofD[OF co rc] by simp
    have old: "no_peer_holds g r c (g ! r ! c)" using conflict_freeD[OF cf rc False] .
    show ?thesis unfolding no_peer_holds_def
    proof (intro ballI impI)
      fix r2 c2 :: nat assume "r2 \<in> {0..<9}" "c2 \<in> {0..<9}" and pe: "peer r c r2 c2"
      then have b: "r2 < 9" "c2 < 9" by simp_all
      show "g' ! r2 ! c2 \<noteq> g' ! r ! c"
      proof (cases "g ! r2 ! c2 = Num 0")
        case True
        from no_peer_holdsD[OF pass'[OF b True] rc peer_sym[OF pe]]
        show ?thesis by simp
      next
        case False
        then have "g' ! r2 ! c2 = g ! r2 ! c2" using completion_ofD[OF co b] by simp
        then show ?thesis using no_peer_holdsD[OF old b pe] same by simp
      qed
    qed
  qed
qed

lemma completes_conflict_free:
  assumes "grid9x9 g" "conflict_free g" "completes g g'"
  shows "valid_completion g g' \<and> conflict_free g'"
proof -
  have g': "grid9x9 g'" and co: "completion_of g g'"
    using assms(3) unfolding completes_def completion_of_def by auto
  have all: "\<And>r c. r < 9 \<Longrightarrow> c < 9 \<Longrightarrow> no_peer_holds g' r c (g' ! r ! c)"
    using completes_all_pass[OF assms] .
  have "\<forall>p \<in> {0..<9} \<times> {0..<9}. cell_passes g' p"
    using all cell_passes_iff[OF g'] by auto
  moreover have "conflict_free g'"
    unfolding conflict_free_def filled_cells_def using all by auto
  ultimately show ?thesis using co by (simp add: valid_completion_def)
qed

lemma valid_completion_completes: "valid_completion g g' \<Longrightarrow> completes g g'"
  unfolding valid_completion_def completes_def empty_cells_def by auto

section \<open>Shuffling, and completions that agree with a placement\<close>

lemma random_below_less: "0 < m \<Longrightarrow> fst (random_below m rnd) < m"
  by (simp add: random_below_def)

lemma shuffle_from_mset:
  "k < length arr \<Longrightarrow> mset (fst (shuffle_from k arr rnd)) = mset arr"
proof (induction k arbitrary: arr rnd)
  case 0
  show ?case by simp
next
  case (Suc k)
  obtain j rnd' where d: "random_below (Suc k + 1) rnd = (j, rnd')"
    by (cases "random_below (Suc k + 1) rnd")
  have "j < Suc k + 1" using random_below_less[of "Suc k + 1" rnd] d by simp
  then have j: "j < length arr" using Suc.prems by simp
  let ?arr = "arr[Suc k := arr ! j, j := arr ! Suc k]"
  have m: "mset ?arr = mset arr" using mset_swap[OF j Suc.prems] .
  have "k < length ?arr" using Suc.prems by simp
  from Suc.IH[OF this, of rnd'] m show ?case using d by simp
qed

lemma shuffle_mset: "mset (fst (shuffle arr rnd)) = mset arr"
proof (cases "arr = []")
  case True
  then show ?thesis by (simp add: shuffle_def)
next
  case False
  then have "length arr - 1 < length arr" by simp
  then show ?thesis unfolding shuffle_def by (rule shuffle_from_mset)
qed

lemma shuffledDigits_set: "shuffledDigits rnd = (vs, rnd') \<Longrightarrow> set vs = set DIGITS"
  using shuffle_mset[of DIGITS rnd] mset_eq_setD[of vs DIGITS]
  by (simp add: shuffledDigits_def)

lemma completes_put:
  assumes g: "grid9x9 g" "r < 9" "c < 9" "g ! r ! c = Num 0"
    and v: "v \<in> set DIGITS"
    and s: "completes g s" "s ! r ! c = Num v"
  shows "completes (put g r c (Num v)) s \<and> no_peer_holds (put g r c (Num v)) r c (Num v)"
proof -
  let ?g1 = "put g r c (Num v)"
  have s9: "grid9x9 s" and co: "completion_of g s"
    and pass: "\<And>p. p \<in> empty_cells g \<Longrightarrow> cell_passes s p"
    using s(1) unfolding completes_def completion_of_def by auto
  have vne: "Num v \<noteq> Num 0" using v by (rule DIGITS_nonzero)
  have at: "\<And>r' c'. r' < 9 \<Longrightarrow> c' < 9 \<Longrightarrow>
      ?g1 ! r' ! c' = (if r' = r \<and> c' = c then Num v else g ! r' ! c')"
    using g(1-3) by (simp add: put_nth)
  have g1_here: "?g1 ! r ! c = Num v" using at[OF g(2,3)] by simp
  have g1_other: "\<And>r' c'. r' < 9 \<Longrightarrow> c' < 9 \<Longrightarrow> \<not> (r' = r \<and> c' = c) \<Longrightarrow>
      ?g1 ! r' ! c' = g ! r' ! c'"
    using at by auto
  have co1: "completion_of ?g1 s"
    unfolding completion_of_def
  proof (intro conjI ballI)
    show "grid9x9 s" by (rule s9)
  next
    fix p :: "nat \<times> nat" assume p: "p \<in> {0..<9} \<times> {0..<9}"
    obtain r' c' where rc: "p = (r', c')" "r' < 9" "c' < 9" using p by auto
    have "if ?g1 ! r' ! c' = Num 0 then s ! r' ! c' \<in> Num ` set DIGITS else s ! r' ! c' = ?g1 ! r' ! c'"
    proof (cases "r' = r \<and> c' = c")
      case True
      then show ?thesis using g1_here s(2) vne by simp
    next
      case False
      then show ?thesis using completion_ofD[OF co rc(2,3)] g1_other[OF rc(2,3)] by simp
    qed
    then show "case p of (r, c) \<Rightarrow>
        if ?g1 ! r ! c = Num 0 then s ! r ! c \<in> Num ` set DIGITS else s ! r ! c = ?g1 ! r ! c"
      using rc(1) by simp
  qed
  have sub: "empty_cells ?g1 \<subseteq> empty_cells g"
    using empty_cells_put[OF g(1-3) vne] by simp
  have c1: "completes ?g1 s" unfolding completes_def using co1 sub pass by blast
  have "(r, c) \<in> empty_cells g" using g by (simp add: empty_cells_def)
  then have "cell_passes s (r, c)" by (rule pass)
  then have np: "no_peer_holds s r c (Num v)" using cell_passes_iff[OF s9 g(2,3)] s(2) by simp
  have "no_peer_holds ?g1 r c (Num v)"
    unfolding no_peer_holds_def
  proof (intro ballI impI)
    fix r2 c2 :: nat assume "r2 \<in> {0..<9}" "c2 \<in> {0..<9}" and pe: "peer r c r2 c2"
    then have b: "r2 < 9" "c2 < 9" by simp_all
    have ne: "\<not> (r2 = r \<and> c2 = c)" using pe unfolding peer_def by blast
    have same: "?g1 ! r2 ! c2 = g ! r2 ! c2" using g1_other[OF b ne] .
    show "?g1 ! r2 ! c2 \<noteq> Num v"
    proof (cases "g ! r2 ! c2 = Num 0")
      case True
      then show ?thesis using same vne by simp
    next
      case False
      then have "s ! r2 ! c2 = g ! r2 ! c2" using completion_ofD[OF co b] by simp
      then show ?thesis using no_peer_holdsD[OF np b pe] same by simp
    qed
  qed
  with c1 show ?thesis by simp
qed

section \<open>The solver answers true exactly when the empty cells can be filled\<close>

lemma backtrack_loop_finds:
  assumes IH: "\<And>h s. grid9x9 h \<Longrightarrow> card (empty_cells h) \<le> m \<Longrightarrow> completes h s \<Longrightarrow>
                 \<exists>g'. backtrack m h = Some (Inr (True, g'))"
    and g: "grid9x9 g" "r < 9" "c < 9" "g ! r ! c = Num 0" "card (empty_cells g) \<le> Suc m"
    and s: "completes g s" "s ! r ! c = Num w"
  shows "set vs \<subseteq> set DIGITS \<Longrightarrow> w \<in> set vs \<Longrightarrow>
         \<exists>g'. backtrack_loop (Suc m) r c vs g = Some (Inr (True, g'))"
proof (induction vs)
  case Nil
  then show ?case by simp
next
  case (Cons v vs)
  let ?g1 = "put g r c (Num v)"
  have v: "v \<in> set DIGITS" and vs: "set vs \<subseteq> set DIGITS" using Cons.prems by simp_all
  have g1: "grid9x9 ?g1" using g(1) by (rule grid9x9_put)
  have w1: "set_cell g r c (Num v) = Inr ?g1" using g(1-3) by (rule set_cell_in_range)
  have w2: "set_cell ?g1 r c (Num 0) = Inr g"
    using set_cell_in_range[OF g1 g(2,3), of "Num 0"] put_restore[OF g(4)] by simp
  have chk: "isValidPlacement ?g1 (int r) (int c) (Num v) = Inr (no_peer_holds ?g1 r c (Num v))"
    using g1 g(2,3) by (rule isValidPlacement_in_range)
  have le: "card (empty_cells ?g1) \<le> m"
    using card_empty_cells_put[OF g(1-3) DIGITS_nonzero[OF v] g(4)] g(5) by simp
  show ?case
  proof (cases "v = w")
    case True
    have c1: "completes ?g1 s" and ok: "no_peer_holds ?g1 r c (Num v)"
      using completes_put[OF g(1-4) v s(1)] s(2) True by simp_all
    from IH[OF g1 le c1] obtain h where h: "backtrack m ?g1 = Some (Inr (True, h))" by blast
    have "backtrack_loop (Suc m) r c (v # vs) g = Some (Inr (True, h))"
      using ok by (simp add: w1 chk h)
    then show ?thesis by blast
  next
    case False
    then have wv: "w \<in> set vs" using Cons.prems(2) by simp
    have rest: "\<exists>g'. backtrack_loop (Suc m) r c vs g = Some (Inr (True, g'))"
      using Cons.IH[OF vs wv] .
    show ?thesis
    proof (cases "no_peer_holds ?g1 r c (Num v)")
      case False
      then have "backtrack_loop (Suc m) r c (v # vs) g = backtrack_loop (Suc m) r c vs g"
        by (simp add: w1 w2 chk)
      then show ?thesis using rest by simp
    next
      case True
      from backtrack_ok[OF g1 le] obtain b h where
        res: "backtrack m ?g1 = Some (Inr (b, h))" and
        out: "if b then completes ?g1 h else h = ?g1"
        unfolding search_ok_def by blast
      show ?thesis
      proof (cases b)
        case b: True
        have "backtrack_loop (Suc m) r c (v # vs) g = Some (Inr (True, h))"
          using True b by (simp add: w1 chk res)
        then show ?thesis by blast
      next
        case b: False
        then have "h = ?g1" using out by simp
        then have "backtrack_loop (Suc m) r c (v # vs) g = backtrack_loop (Suc m) r c vs g"
          using True b by (simp add: w1 w2 chk res)
        then show ?thesis using rest by simp
      qed
    qed
  qed
qed

lemma backtrack_finds:
  "grid9x9 g \<Longrightarrow> card (empty_cells g) \<le> n \<Longrightarrow> completes g s \<Longrightarrow>
   \<exists>g'. backtrack n g = Some (Inr (True, g'))"
proof (induction n arbitrary: g s)
  case 0
  then have e: "empty_cells g = {}" using finite_empty_cells[of g] by simp
  then have "findEmpty g = Inr None"
    using findEmpty_cases[OF "0.prems"(1)] by (auto simp: empty_cells_def)
  then show ?case by (simp add: backtrack.simps)
next
  case (Suc m)
  from findEmpty_cases[OF Suc.prems(1)] show ?case
  proof (elim disjE exE conjE)
    fix r c assume f: "findEmpty g = Inr (Some (r, c))" and rc: "r < 9" "c < 9" "g ! r ! c = Num 0"
    have "s ! r ! c \<in> Num ` set DIGITS"
      using Suc.prems(3) completion_ofD[of g s r c] rc by (simp add: completes_def)
    then obtain w where w: "w \<in> set DIGITS" "s ! r ! c = Num w" by auto
    have "\<exists>g'. backtrack_loop (Suc m) r c DIGITS g = Some (Inr (True, g'))"
      using backtrack_loop_finds[OF Suc.IH Suc.prems(1) rc Suc.prems(2,3) w(2) _ w(1)] by simp
    then show ?thesis by (simp add: backtrack.simps f)
  next
    assume "findEmpty g = Inr None"
    then show ?thesis by (simp add: backtrack.simps)
  qed
qed

lemma solveSudoku_with_completion:
  assumes "grid9x9 g" "81 \<le> n" "completes g s"
  shows "\<exists>g'. solveSudoku n g = Some (Inr \<lparr>solved = True, grid = g'\<rparr>) \<and> completes g g'"
proof -
  have le: "card (empty_cells g) \<le> n" using card_empty_cells_le[of g] assms(2) by simp
  from backtrack_finds[OF assms(1) le assms(3)] obtain g' where
    b: "backtrack n g = Some (Inr (True, g'))" by blast
  then have "completes g g'" using backtrack_ok[OF assms(1) le] by (auto simp: search_ok_def)
  then show ?thesis using b by (simp add: solveSudoku_def cloneGrid_id)
qed

lemma solveSudoku_no_completion:
  assumes "grid9x9 g" "81 \<le> n" "\<not> (\<exists>g'. completes g g')"
  shows "solveSudoku n g = Some (Inr \<lparr>solved = False, grid = g\<rparr>)"
proof -
  from solveSudoku_81[OF assms(1,2)] obtain b g' where
    r: "solveSudoku n g = Some (Inr \<lparr>solved = b, grid = g'\<rparr>)"
    and o: "if b then completes g g' else g' = g" by blast
  have "\<not> b" using o assms(3) by auto
  then show ?thesis using r o by simp
qed

lemma example_dup_row_no_valid_completion: "\<not> has_valid_completion example_dup_row"
proof
  assume "has_valid_completion example_dup_row"
  then obtain g' where co: "completion_of example_dup_row g'"
    and pass: "\<forall>p \<in> {0..<9} \<times> {0..<9}. cell_passes g' p"
    unfolding has_valid_completion_def valid_completion_def by blast
  have g': "grid9x9 g'" using co by (simp add: completion_of_def)
  have a: "example_dup_row ! 0 ! 0 = Num 3" by code_simp
  have b: "example_dup_row ! 0 ! 1 = Num 3" by code_simp
  have a': "g' ! 0 ! 0 = Num 3" using completion_ofD[OF co, of 0 0] a by simp
  have b': "g' ! 0 ! 1 = Num 3" using completion_ofD[OF co, of 0 1] b by simp
  have "cell_passes g' (0, 0)" using pass by simp
  then have "no_peer_holds g' 0 0 (Num 3)" using cell_passes_iff[OF g', of 0 0] a' by simp
  from no_peer_holdsD[OF this, of 0 1] b' show False by (simp add: peer_def)
qed

text \<open>
  C2 (as stated): a grid with zero valid completions, in particular one with two
  identical givens in a row, yields \<open>solved = false\<close>. It does not: the givens are never
  checked against each other. \<open>example_dup_row\<close> holds 3 twice in row 0 and has no valid
  completion, and the solver fills its one empty cell and answers \<open>solved = true\<close>.
\<close>

theorem solve_duplicate_givens_counterexample:
  "example_dup_row ! 0 ! 0 = Num 3 \<and> example_dup_row ! 0 ! 1 = Num 3
   \<and> \<not> has_valid_completion example_dup_row
   \<and> solveSudoku 81 example_dup_row
       = Some (Inr \<lparr>solved = True, grid = put example_dup_row 8 8 (Num 9)\<rparr>)"
proof -
  have a: "example_dup_row ! 0 ! 0 = Num 3" by code_simp
  have b: "example_dup_row ! 0 ! 1 = Num 3" by code_simp
  have s: "solveSudoku 81 example_dup_row
       = Some (Inr \<lparr>solved = True, grid = put example_dup_row 8 8 (Num 9)\<rparr>)" by code_simp
  show ?thesis using a b s example_dup_row_no_valid_completion by simp
qed

text \<open>
  C2 (amended): for a 9x9 grid, the solver answers \<open>solved = false\<close>, and returns the input,
  if and only if no assignment of values 1..9 to the empty cells makes each of those cells
  pass the placement check; otherwise it answers \<open>solved = true\<close> and returns such an
  assignment. For a grid that \<open>gridHasConflicts\<close> finds free of conflicts, as the caller
  ensures, this says: \<open>solved = false\<close> if and only if the grid has zero valid completions.
\<close>

theorem solve_fails_without_completion:
  assumes "grid9x9 g" "81 \<le> n"
  shows "(\<not> (\<exists>g'. completes g g') \<longrightarrow>
            solveSudoku n g = Some (Inr \<lparr>solved = False, grid = g\<rparr>))
       \<and> ((\<exists>g'. completes g g') \<longrightarrow>
            (\<exists>g'. solveSudoku n g = Some (Inr \<lparr>solved = True, grid = g'\<rparr>) \<and> completes g g'))
       \<and> (gridHasConflicts g = Inr False \<and> \<not> has_valid_completion g \<longrightarrow>
            solveSudoku n g = Some (Inr \<lparr>solved = False, grid = g\<rparr>))
       \<and> (gridHasConflicts g = Inr False \<and> has_valid_completion g \<longrightarrow>
            (\<exists>g'. solveSudoku n g = Some (Inr \<lparr>solved = True, grid = g'\<rparr>)
                \<and> valid_completion g g'))"
proof (intro conjI impI)
  assume "\<not> (\<exists>g'. completes g g')"
  then show "solveSudoku n g = Some (Inr \<lparr>solved = False, grid = g\<rparr>)"
    using solveSudoku_no_completion[OF assms] by simp
next
  assume "\<exists>g'. completes g g'"
  then obtain s where "completes g s" by blast
  then show "\<exists>g'. solveSudoku n g = Some (Inr \<lparr>solved = True, grid = g'\<rparr>) \<and> completes g g'"
    by (rule solveSudoku_with_completion[OF assms])
next
  assume a: "gridHasConflicts g = Inr False \<and> \<not> has_valid_completion g"
  then have cf: "conflict_free g" using gridHasConflicts_iff[OF assms(1)] by simp
  have "\<not> (\<exists>g'. completes g g')"
    using completes_conflict_free[OF assms(1) cf] a unfolding has_valid_completion_def by blast
  then show "solveSudoku n g = Some (Inr \<lparr>solved = False, grid = g\<rparr>)"
    using solveSudoku_no_completion[OF assms] by simp
next
  assume a: "gridHasConflicts g = Inr False \<and> has_valid_completion g"
  then have cf: "conflict_free g" using gridHasConflicts_iff[OF assms(1)] by simp
  from a obtain s where "valid_completion g s" unfolding has_valid_completion_def by blast
  then have "completes g s" by (rule valid_completion_completes)
  from solveSudoku_with_completion[OF assms this] obtain g' where
    r: "solveSudoku n g = Some (Inr \<lparr>solved = True, grid = g'\<rparr>)" and c: "completes g g'"
    by blast
  have "valid_completion g g'" using completes_conflict_free[OF assms(1) cf c] by simp
  with r show "\<exists>g'. solveSudoku n g = Some (Inr \<lparr>solved = True, grid = g'\<rparr>)
                \<and> valid_completion g g'" by blast
qed

lemma example_unsolvable_no_completion: "\<not> (\<exists>g'. completes example_unsolvable g')"
proof
  assume "\<exists>g'. completes example_unsolvable g'"
  then obtain g' where co: "completion_of example_unsolvable g'"
    and pass: "\<forall>p \<in> empty_cells example_unsolvable. cell_passes g' p"
    unfolding completes_def by blast
  have g': "grid9x9 g'" using co by (simp add: completion_of_def)
  have e: "example_unsolvable ! 0 ! 8 = Num 0" by code_simp
  have row: "\<forall>i \<in> {0..<8}. example_unsolvable ! 0 ! i = Num (int i + 1)" by code_simp
  have col: "example_unsolvable ! 1 ! 8 = Num 9" by code_simp
  have "(0, 8) \<in> empty_cells example_unsolvable" using e by (simp add: empty_cells_def)
  then have "cell_passes g' (0, 8)" using pass by blast
  then have np: "no_peer_holds g' 0 8 (g' ! 0 ! 8)" using cell_passes_iff[OF g', of 0 8] by simp
  obtain v where v: "v \<in> set DIGITS" "g' ! 0 ! 8 = Num v"
    using completion_ofD[OF co, of 0 8] e by auto
  have row': "g' ! 0 ! i = Num (int i + 1)" if "i < 8" for i
    using completion_ofD[OF co, of 0 i] row that by simp
  have col': "g' ! 1 ! 8 = Num 9" using completion_ofD[OF co, of 1 8] col by simp
  have n9: "v \<noteq> 9" using no_peer_holdsD[OF np, of 1 8] col' v(2) by (auto simp: peer_def)
  have ni: "v \<noteq> int i + 1" if "i < 8" for i
    using no_peer_holdsD[OF np, of 0 i] row'[OF that] v(2) that by (auto simp: peer_def)
  have "v \<notin> set DIGITS"
    using n9 ni[of 0] ni[of 1] ni[of 2] ni[of 3] ni[of 4] ni[of 5] ni[of 6] ni[of 7]
    by (auto simp: DIGITS_def)
  with v(1) show False by simp
qed

theorem solve_fails_without_completion_witness:
  "gridHasConflicts example_unsolvable = Inr False
   \<and> \<not> has_valid_completion example_unsolvable
   \<and> solveSudoku 81 example_unsolvable = Some (Inr \<lparr>solved = False, grid = example_unsolvable\<rparr>)
   \<and> gridHasConflicts example_puzzle = Inr False
   \<and> has_valid_completion example_puzzle
   \<and> (\<exists>g'. solveSudoku 81 example_puzzle = Some (Inr \<lparr>solved = True, grid = g'\<rparr>)
          \<and> valid_completion example_puzzle g')"
proof -
  have g: "grid9x9 example_unsolvable" by code_simp
  have c: "gridHasConflicts example_unsolvable = Inr False" by code_simp
  have n: "\<not> has_valid_completion example_unsolvable"
    using example_unsolvable_no_completion valid_completion_completes
    unfolding has_valid_completion_def by blast
  have g2: "grid9x9 example_puzzle" by code_simp
  have c2: "gridHasConflicts example_puzzle = Inr False" by code_simp
  have "valid_completion example_puzzle example_solution" by code_simp
  then have h: "has_valid_completion example_puzzle" unfolding has_valid_completion_def by blast
  show ?thesis
    using solve_fails_without_completion[OF g, of 81]
      solve_fails_without_completion[OF g2, of 81] c n c2 h by simp
qed

section \<open>The generator's search returns, and succeeds whenever a completion exists\<close>

lemma fill_loop_ok_step:
  assumes IH: "\<And>h rnd. grid9x9 h \<Longrightarrow> card (empty_cells h) \<le> m \<Longrightarrow> fill_ok h (fill m h rnd)"
    and g: "grid9x9 g" "r < 9" "c < 9" "g ! r ! c = Num 0" "card (empty_cells g) \<le> Suc m"
  shows "set vs \<subseteq> set DIGITS \<Longrightarrow> fill_loop_ok g r c vs (fill_loop (Suc m) r c vs g rnd)"
proof (induction vs arbitrary: rnd)
  case Nil
  have "fill_loop_ok g r c [] (Some (Inr (False, g, rnd)))"
    unfolding fill_loop_ok_def by (intro exI[of _ False] exI[of _ g] exI[of _ rnd]) simp
  then show ?case by simp
next
  case (Cons v vs)
  let ?g1 = "put g r c (Num v)"
  have v: "v \<in> set DIGITS" and vs: "set vs \<subseteq> set DIGITS" using Cons.prems by simp_all
  have g1: "grid9x9 ?g1" using g(1) by (rule grid9x9_put)
  have w1: "set_cell g r c (Num v) = Inr ?g1" using g(1-3) by (rule set_cell_in_range)
  have w2: "set_cell ?g1 r c (Num 0) = Inr g"
    using set_cell_in_range[OF g1 g(2,3), of "Num 0"] put_restore[OF g(4)] by simp
  have chk: "isValidPlacement ?g1 (int r) (int c) (Num v) = Inr (no_peer_holds ?g1 r c (Num v))"
    using g1 g(2,3) by (rule isValidPlacement_in_range)
  have extend: "fill_loop_ok g r c (v # vs) res"
    if rest: "fill_loop_ok g r c vs res" and nov: "\<not> (\<exists>s. completes g s \<and> s ! r ! c = Num v)" for res
  proof -
    from rest obtain b g' rnd' where
      r: "res = Some (Inr (b, g', rnd'))"
      and o: "if b then completes g g'
              else g' = g \<and> \<not> (\<exists>s. completes g s \<and> s ! r ! c \<in> Num ` set vs)"
      unfolding fill_loop_ok_def by blast
    have "if b then completes g g'
          else g' = g \<and> \<not> (\<exists>s. completes g s \<and> s ! r ! c \<in> Num ` set (v # vs))"
      using o nov by (cases b) auto
    with r show ?thesis unfolding fill_loop_ok_def by blast
  qed
  show ?case
  proof (cases "no_peer_holds ?g1 r c (Num v)")
    case False
    have nov: "\<not> (\<exists>s. completes g s \<and> s ! r ! c = Num v)"
      using completes_put[OF g(1-4) v] False by blast
    have "fill_loop (Suc m) r c (v # vs) g rnd = fill_loop (Suc m) r c vs g rnd"
      using False by (simp add: w1 w2 chk)
    then show ?thesis using extend[OF Cons.IH[OF vs, of rnd] nov] by simp
  next
    case True
    have "Suc (card (empty_cells ?g1)) = card (empty_cells g)"
      using g(1-3) DIGITS_nonzero[OF v] g(4) by (rule card_empty_cells_put)
    then have "card (empty_cells ?g1) \<le> m" using g(5) by simp
    from IH[OF g1 this, of rnd] obtain b g' rnd' where
      res: "fill m ?g1 rnd = Some (Inr (b, g', rnd'))" and
      out: "if b then completes ?g1 g' else g' = ?g1 \<and> \<not> (\<exists>s. completes ?g1 s)"
      unfolding fill_ok_def by blast
    show ?thesis
    proof (cases b)
      case b: True
      then have "completes g g'"
        using completes_step[OF g(1-4) v True] out by simp
      moreover have "fill_loop (Suc m) r c (v # vs) g rnd = Some (Inr (True, g', rnd'))"
        using b True by (simp add: w1 chk res)
      ultimately show ?thesis
        unfolding fill_loop_ok_def by (intro exI[of _ True] exI[of _ g'] exI[of _ rnd']) simp
    next
      case b: False
      then have e: "g' = ?g1" and none: "\<not> (\<exists>s. completes ?g1 s)" using out by simp_all
      have nov: "\<not> (\<exists>s. completes g s \<and> s ! r ! c = Num v)"
        using completes_put[OF g(1-4) v] none by blast
      have "fill_loop (Suc m) r c (v # vs) g rnd = fill_loop (Suc m) r c vs g rnd'"
        using b True e by (simp add: w1 w2 chk res)
      then show ?thesis using extend[OF Cons.IH[OF vs, of rnd'] nov] by simp
    qed
  qed
qed

lemma fill_ok_True: "completes g g' \<Longrightarrow> fill_ok g (Some (Inr (True, g', rnd)))"
  unfolding fill_ok_def by (intro exI[of _ True] exI[of _ g'] exI[of _ rnd]) simp

lemma fill_invariant:
  "grid9x9 g \<Longrightarrow> card (empty_cells g) \<le> n \<Longrightarrow> fill_ok g (fill n g rnd)"
proof (induction n arbitrary: g rnd)
  case 0
  then have e: "empty_cells g = {}" using finite_empty_cells[of g] by simp
  then have "findEmpty g = Inr None"
    using findEmpty_cases[OF "0.prems"(1)] by (auto simp: empty_cells_def)
  then show ?case using completes_refl[OF "0.prems"(1) e] by (simp add: fill.simps fill_ok_True)
next
  case (Suc m)
  from findEmpty_cases[OF Suc.prems(1)] show ?case
  proof (elim disjE exE conjE)
    fix r c assume f: "findEmpty g = Inr (Some (r, c))" and rc: "r < 9" "c < 9" "g ! r ! c = Num 0"
    obtain vs rnd1 where sh: "shuffledDigits rnd = (vs, rnd1)" by (cases "shuffledDigits rnd")
    have vs: "set vs = set DIGITS" using sh by (rule shuffledDigits_set)
    then have "set vs \<subseteq> set DIGITS" by simp
    from fill_loop_ok_step[OF Suc.IH Suc.prems(1) rc Suc.prems(2) this, of rnd1]
    obtain b g' rnd' where
      r: "fill_loop (Suc m) r c vs g rnd1 = Some (Inr (b, g', rnd'))"
      and o: "if b then completes g g'
              else g' = g \<and> \<not> (\<exists>s. completes g s \<and> s ! r ! c \<in> Num ` set vs)"
      unfolding fill_loop_ok_def by blast
    have any: "s ! r ! c \<in> Num ` set vs" if "completes g s" for s
      using that completion_ofD[of g s r c] rc vs by (simp add: completes_def)
    have "if b then completes g g' else g' = g \<and> \<not> (\<exists>s. completes g s)"
      using o any by (cases b) auto
    moreover have "fill (Suc m) g rnd = Some (Inr (b, g', rnd'))"
      by (simp add: fill.simps f sh r)
    ultimately show ?thesis unfolding fill_ok_def by blast
  next
    assume "findEmpty g = Inr None" and e: "empty_cells g = {}"
    then show ?thesis using completes_refl[OF Suc.prems(1) e] by (simp add: fill.simps fill_ok_True)
  qed
qed

section \<open>Building blocks of the generator\<close>

lemma example_solution_completes_empty: "completes createEmptyGrid example_solution"
  by code_simp

lemma grid9x9_createEmptyGrid: "grid9x9 createEmptyGrid"
  by (simp add: grid9x9_def createEmptyGrid_def)

lemma conflict_free_createEmptyGrid: "conflict_free createEmptyGrid"
  by (auto simp: conflict_free_def filled_cells_def createEmptyGrid_def)

lemma fill_createEmptyGrid:
  assumes "81 \<le> n"
  shows "\<exists>sol rnd'. fill n createEmptyGrid rnd = Some (Inr (True, sol, rnd'))
           \<and> completes createEmptyGrid sol"
proof -
  have "card (empty_cells createEmptyGrid) \<le> n"
    using card_empty_cells_le[of createEmptyGrid] assms by simp
  from fill_invariant[OF grid9x9_createEmptyGrid this, of rnd] obtain b g' rnd' where
    r: "fill n createEmptyGrid rnd = Some (Inr (b, g', rnd'))"
    and o: "if b then completes createEmptyGrid g'
            else g' = createEmptyGrid \<and> \<not> (\<exists>s. completes createEmptyGrid s)"
    unfolding fill_ok_def by blast
  have b using o example_solution_completes_empty by (cases b) auto
  then show ?thesis using r o by auto
qed

lemma grid9x9_eqI:
  assumes "grid9x9 a" "grid9x9 b" "\<And>r c. r < 9 \<Longrightarrow> c < 9 \<Longrightarrow> a ! r ! c = b ! r ! c"
  shows "a = b"
proof (rule nth_equalityI)
  show "length a = length b" using assms(1,2) by (simp add: grid9x9_def)
next
  fix r assume "r < length a"
  then have r: "r < 9" using assms(1) by (simp add: grid9x9_def)
  show "a ! r = b ! r"
  proof (rule nth_equalityI)
    show "length (a ! r) = length (b ! r)"
      using grid9x9_row[OF assms(1) r] grid9x9_row[OF assms(2) r] by simp
  next
    fix c assume "c < length (a ! r)"
    then have "c < 9" using grid9x9_row[OF assms(1) r] by simp
    then show "a ! r ! c = b ! r ! c" using assms(3) r by simp
  qed
qed

lemma grid9x9_zeroed: "grid9x9 (zeroed g Z)"
  by (auto simp: grid9x9_def zeroed_def)

lemma zeroed_nth:
  "r < 9 \<Longrightarrow> c < 9 \<Longrightarrow> zeroed g Z ! r ! c = (if (r, c) \<in> Z then Num 0 else g ! r ! c)"
  by (simp add: zeroed_def)

lemma cell_of_index:
  "r < 9 \<Longrightarrow> c < 9 \<Longrightarrow> (idx div 9 = r \<and> idx mod 9 = c) \<longleftrightarrow> idx = r * 9 + (c::nat)"
  by auto

lemma remove_loop_result:
  "grid9x9 p \<Longrightarrow> \<forall>k\<in>set ks. indices ! k < 81 \<Longrightarrow>
   \<exists>p'. remove_loop indices ks p = Inr p' \<and> grid9x9 p' \<and>
     (\<forall>r<9. \<forall>c<9. p' ! r ! c =
        (if r * 9 + c \<in> (\<lambda>k. indices ! k) ` set ks then Num 0 else p ! r ! c))"
proof (induction ks arbitrary: p)
  case Nil
  then show ?case by simp
next
  case (Cons k ks)
  let ?r = "indices ! k div 9" and ?c = "indices ! k mod 9"
  have "indices ! k < 9 * 9" using Cons.prems(2) by simp
  then have "?r < 9" by (simp only: less_mult_imp_div_less)
  moreover have "?c < 9" by simp
  ultimately have rc: "?r < 9" "?c < 9" .
  let ?p1 = "put p ?r ?c (Num 0)"
  have p1: "grid9x9 ?p1" using Cons.prems(1) by (rule grid9x9_put)
  have w: "set_cell p ?r ?c (Num 0) = Inr ?p1" using Cons.prems(1) rc by (rule set_cell_in_range)
  have "\<forall>k\<in>set ks. indices ! k < 81" using Cons.prems(2) by simp
  from Cons.IH[OF p1 this] obtain p' where
    r: "remove_loop indices ks ?p1 = Inr p'" and g: "grid9x9 p'"
    and at: "\<And>r c. r < 9 \<Longrightarrow> c < 9 \<Longrightarrow> p' ! r ! c =
        (if r * 9 + c \<in> (\<lambda>k. indices ! k) ` set ks then Num 0 else ?p1 ! r ! c)"
    by blast
  have "remove_loop indices (k # ks) p = Inr p'" by (simp add: Let_def w r)
  moreover have "p' ! r ! c =
        (if r * 9 + c \<in> (\<lambda>k. indices ! k) ` set (k # ks) then Num 0 else p ! r ! c)"
    if "r < 9" "c < 9" for r c
  proof -
    have "(r = ?r \<and> c = ?c) \<longleftrightarrow> r * 9 + c = indices ! k"
      using cell_of_index[OF that, of "indices ! k"] by auto
    then show ?thesis
      using at[OF that] put_nth[OF Cons.prems(1) rc that, of "Num 0"] by auto
  qed
  ultimately show ?case using g by blast
qed

section \<open>What the generator returns\<close>

lemma shuffle_indices:
  assumes "shuffle [0..<81] rnd = (indices, rnd')"
  shows "distinct indices \<and> set indices = {0..<81} \<and> length indices = 81"
proof -
  have m: "mset indices = mset [0..<81]" using shuffle_mset[of "[0..<81]" rnd] assms by simp
  have "distinct indices" using mset_eq_imp_distinct_iff[OF m] by simp
  moreover have "set indices = {0..<81}" using mset_eq_setD[OF m] by simp
  moreover have "length indices = 81" using mset_eq_length[OF m] by simp
  ultimately show ?thesis by simp
qed

lemma zero_cells_count:
  assumes "R \<subseteq> {0..<81::nat}"
  shows "card {(r, c) \<in> {0..<9} \<times> {0..<9}. r * 9 + c \<in> R} = card R"
proof -
  let ?A = "{(r, c) \<in> {0..<9::nat} \<times> {0..<9::nat}. r * 9 + c \<in> R}"
  let ?f = "\<lambda>(r::nat, c::nat). r * 9 + c"
  have inj: "inj_on ?f ?A"
  proof (rule inj_onI)
    fix x y assume x: "x \<in> ?A" and y: "y \<in> ?A" and e: "?f x = ?f y"
    obtain r c where xx: "x = (r, c)" "c < 9" using x by auto
    obtain r' c' where yy: "y = (r', c')" "c' < 9" using y by auto
    have "r * 9 + c = r' * 9 + c'" using e xx yy by simp
    then have "r = r' \<and> c = c'" using xx(2) yy(2) by arith
    then show "x = y" using xx yy by simp
  qed
  have "?f ` ?A = R"
  proof (intro equalityI subsetI)
    fix i assume "i \<in> ?f ` ?A"
    then show "i \<in> R" by auto
  next
    fix i assume i: "i \<in> R"
    then have "i < 9 * 9" using assms by auto
    then have "i div 9 < 9" by (simp only: less_mult_imp_div_less)
    then have "(i div 9, i mod 9) \<in> ?A" using i by simp
    moreover have "?f (i div 9, i mod 9) = i" by simp
    ultimately show "i \<in> ?f ` ?A" by (metis (no_types, lifting) image_eqI)
  qed
  then show ?thesis using card_image[OF inj] by simp
qed

lemma generateSudoku_result:
  assumes "81 \<le> n"
  defines "K \<equiv> \<lambda>givens_opt. max 17 (min 81 (case givens_opt of None \<Rightarrow> 32 | Some k \<Rightarrow> k))"
  shows "\<exists>p sol R. generateSudoku n givens_opt rnd = Some (Inr \<lparr>puzzle = p, solution = sol\<rparr>)
     \<and> completes createEmptyGrid sol \<and> grid9x9 p
     \<and> R \<subseteq> {0..<81} \<and> card R = 81 - nat (K givens_opt)
     \<and> (\<forall>r<9. \<forall>c<9. p ! r ! c = (if r * 9 + c \<in> R then Num 0 else sol ! r ! c))"
proof -
  from fill_createEmptyGrid[OF assms(1), of rnd] obtain sol rnd1 where
    f: "fill n createEmptyGrid rnd = Some (Inr (True, sol, rnd1))"
    and cs: "completes createEmptyGrid sol" by blast
  have sol: "grid9x9 sol" using completes_full[OF cs] by simp
  obtain indices rnd2 where sh: "shuffle [0..<81] rnd1 = (indices, rnd2)"
    by (cases "shuffle [0..<81] rnd1")
  from shuffle_indices[OF sh] have d: "distinct indices" and si: "set indices = {0..<81}"
    and li: "length indices = 81" by simp_all
  define t where "t = nat (81 - K givens_opt)"
  have K: "17 \<le> K givens_opt" "K givens_opt \<le> 81" unfolding K_def by simp_all
  have t: "t \<le> 64" "t = 81 - nat (K givens_opt)" unfolding t_def using K by simp_all
  have lt: "k < length indices" if "k < t" for k using that t(1) li by simp
  have "\<forall>k\<in>set [0..<t]. indices ! k < 81"
    using lt nth_mem[of _ indices] si by fastforce
  from remove_loop_result[OF sol this] obtain p where
    r: "remove_loop indices [0..<t] sol = Inr p" and p: "grid9x9 p"
    and at: "\<forall>r<9. \<forall>c<9. p ! r ! c =
        (if r * 9 + c \<in> (\<lambda>k. indices ! k) ` set [0..<t] then Num 0 else sol ! r ! c)"
    by blast
  let ?R = "(\<lambda>k. indices ! k) ` set [0..<t]"
  have sub: "?R \<subseteq> {0..<81}" using lt nth_mem[of _ indices] si by fastforce
  have "inj_on (nth indices) {0..<t}"
    using d lt by (intro inj_on_nth) auto
  then have card: "card ?R = t" using card_image[of "nth indices" "{0..<t}"] by simp
  have "generateSudoku n givens_opt rnd = Some (Inr \<lparr>puzzle = p, solution = sol\<rparr>)"
    unfolding generateSudoku_def Let_def
    using f sh r by (simp add: cloneGrid_id K_def t_def)
  then show ?thesis using cs p sub card t(2) at by blast
qed

lemma generateSudoku_counts:
  assumes "81 \<le> n"
  shows "\<exists>p sol. generateSudoku n (Some givens) rnd = Some (Inr \<lparr>puzzle = p, solution = sol\<rparr>)
      \<and> grid9x9 p \<and> grid9x9 sol \<and> empty_cells sol = {}
      \<and> card (filled_cells p) = nat (max 17 (min 81 givens))
      \<and> card (empty_cells p) = 81 - nat (max 17 (min 81 givens))
      \<and> p = zeroed sol (empty_cells p)
      \<and> (81 \<le> givens \<longrightarrow> p = sol)"
proof -
  let ?K = "max 17 (min 81 givens)"
  from generateSudoku_result[OF assms, of "Some givens" rnd] obtain p sol R where
    r: "generateSudoku n (Some givens) rnd = Some (Inr \<lparr>puzzle = p, solution = sol\<rparr>)"
    and cs: "completes createEmptyGrid sol" and p: "grid9x9 p"
    and R: "R \<subseteq> {0..<81}" "card R = 81 - nat ?K"
    and at: "\<And>r c. r < 9 \<Longrightarrow> c < 9 \<Longrightarrow> p ! r ! c = (if r * 9 + c \<in> R then Num 0 else sol ! r ! c)"
    by auto
  have sol: "grid9x9 sol" and full: "empty_cells sol = {}" using completes_full[OF cs] by simp_all
  have nz: "sol ! r ! c \<noteq> Num 0" if "r < 9" "c < 9" for r c
    using full that unfolding empty_cells_def by auto
  have ec: "empty_cells p = {(r, c) \<in> {0..<9} \<times> {0..<9}. r * 9 + c \<in> R}"
    unfolding empty_cells_def using at nz by (auto split: if_splits)
  have ce: "card (empty_cells p) = 81 - nat ?K"
    unfolding ec using zero_cells_count[OF R(1)] R(2) by simp
  have "filled_cells p = ({0..<9} \<times> {0..<9}) - empty_cells p"
    unfolding filled_cells_def empty_cells_def by auto
  moreover have "empty_cells p \<subseteq> {0..<9} \<times> {0..<9}" unfolding empty_cells_def by auto
  ultimately have "card (filled_cells p) = card ({0..<9::nat} \<times> {0..<9::nat}) - card (empty_cells p)"
    using finite_empty_cells[of p] by (simp add: card_Diff_subset)
  then have cf: "card (filled_cells p) = nat ?K" using ce by simp
  have z: "p = zeroed sol (empty_cells p)"
  proof (rule grid9x9_eqI[OF p grid9x9_zeroed])
    fix r c :: nat assume rc: "r < 9" "c < 9"
    have "(r, c) \<in> empty_cells p \<longleftrightarrow> r * 9 + c \<in> R" unfolding ec using rc by simp
    then show "p ! r ! c = zeroed sol (empty_cells p) ! r ! c"
      using at[OF rc] zeroed_nth[OF rc, of sol "empty_cells p"] by simp
  qed
  have same: "p = sol" if "81 \<le> givens"
  proof -
    have "card R = 0" using R(2) that by simp
    moreover have "finite R" using R(1) finite_subset by blast
    ultimately have "R = {}" by simp
    then show ?thesis using at by (intro grid9x9_eqI[OF p sol]) simp
  qed
  show ?thesis using r p sol full cf ce z same by blast
qed

lemma zeroing_keeps_conflict_free:
  assumes p: "grid9x9 p" and cf: "conflict_free sol"
    and at: "\<And>r c. r < 9 \<Longrightarrow> c < 9 \<Longrightarrow> p ! r ! c = Num 0 \<or> p ! r ! c = sol ! r ! c"
  shows "conflict_free p"
  unfolding conflict_free_def filled_cells_def
proof (clarsimp)
  fix r c :: nat assume rc: "r < 9" "c < 9" and nz: "p ! r ! c \<noteq> Num 0"
  then have same: "p ! r ! c = sol ! r ! c" using at by blast
  then have old: "no_peer_holds sol r c (p ! r ! c)" using conflict_freeD[OF cf rc] nz by simp
  show "no_peer_holds p r c (p ! r ! c)"
    unfolding no_peer_holds_def
  proof (intro ballI impI)
    fix r2 c2 :: nat assume "r2 \<in> {0..<9}" "c2 \<in> {0..<9}" and pe: "peer r c r2 c2"
    then have b: "r2 < 9" "c2 < 9" by simp_all
    from at[OF b] show "p ! r2 ! c2 \<noteq> p ! r ! c"
      using nz no_peer_holdsD[OF old b pe] by auto
  qed
qed

lemma generateSudoku_conflict_free:
  assumes "81 \<le> n"
  shows "\<exists>res. generateSudoku n givens_opt rnd = Some (Inr res)
      \<and> gridHasConflicts (puzzle res) = Inr False \<and> gridHasConflicts (solution res) = Inr False"
proof -
  from generateSudoku_result[OF assms, of givens_opt rnd] obtain p sol R where
    r: "generateSudoku n givens_opt rnd = Some (Inr \<lparr>puzzle = p, solution = sol\<rparr>)"
    and cs: "completes createEmptyGrid sol" and p: "grid9x9 p"
    and at: "\<And>r c. r < 9 \<Longrightarrow> c < 9 \<Longrightarrow> p ! r ! c = (if r * 9 + c \<in> R then Num 0 else sol ! r ! c)"
    by auto
  have sol: "grid9x9 sol" using completes_full[OF cs] by simp
  have cf: "conflict_free sol"
    using completes_conflict_free[OF grid9x9_createEmptyGrid conflict_free_createEmptyGrid cs] by simp
  have "conflict_free p" using at by (intro zeroing_keeps_conflict_free[OF p cf]) simp
  then show ?thesis using r cf gridHasConflicts_iff[OF p] gridHasConflicts_iff[OF sol] by simp
qed

lemma solveSudoku_conflict_free:
  assumes "81 \<le> n" "grid9x9 g" "gridHasConflicts g = Inr False"
  shows "\<exists>res. solveSudoku n g = Some (Inr res)
           \<and> (solved res \<longrightarrow> gridHasConflicts (grid res) = Inr False)"
proof -
  have cf: "conflict_free g" using gridHasConflicts_iff[OF assms(2)] assms(3) by simp
  from solveSudoku_81[OF assms(2,1)] obtain b g' where
    r: "solveSudoku n g = Some (Inr \<lparr>solved = b, grid = g'\<rparr>)"
    and o: "if b then completes g g' else g' = g" by blast
  have "gridHasConflicts g' = Inr False" if b
  proof -
    have c: "completes g g'" using o that by simp
    have "grid9x9 g'" using completes_full[OF c] by simp
    then show ?thesis
      using gridHasConflicts_iff[of g'] completes_conflict_free[OF assms(2) cf c] by simp
  qed
  with r show ?thesis by simp
qed

section \<open>The solver leaves the conflicts of its input as they are\<close>

lemma completion_keeps_conflicts:
  assumes g: "grid9x9 g" and co: "completion_of g g'" and nf: "\<not> conflict_free g"
  shows "\<not> conflict_free g'"
proof -
  from nf obtain r c where rc: "r < 9" "c < 9" and nz: "g ! r ! c \<noteq> Num 0"
    and bad: "\<not> no_peer_holds g r c (g ! r ! c)"
    unfolding conflict_free_def filled_cells_def by auto
  from bad obtain r2 c2 where b: "r2 < 9" "c2 < 9" and pe: "peer r c r2 c2"
    and eq: "g ! r2 ! c2 = g ! r ! c"
    unfolding no_peer_holds_def by auto
  have a: "g' ! r ! c = g ! r ! c" using completion_ofD[OF co rc] nz by simp
  have a2: "g' ! r2 ! c2 = g ! r2 ! c2" using completion_ofD[OF co b] nz eq by simp
  have "\<not> no_peer_holds g' r c (g' ! r ! c)"
    using no_peer_holdsD[of g' r c "g' ! r ! c" r2 c2] b pe a a2 eq by auto
  moreover have "(r, c) \<in> filled_cells g'" using rc a nz by (simp add: filled_cells_def)
  ultimately show ?thesis unfolding conflict_free_def by blast
qed

lemma solveSudoku_same_conflicts:
  assumes "grid9x9 g" "81 \<le> n"
  shows "\<exists>res. solveSudoku n g = Some (Inr res) \<and> grid9x9 (grid res)
           \<and> gridHasConflicts (grid res) = gridHasConflicts g"
proof -
  from solveSudoku_81[OF assms] obtain b g' where
    r: "solveSudoku n g = Some (Inr \<lparr>solved = b, grid = g'\<rparr>)"
    and o: "if b then completes g g' else g' = g" by blast
  have "grid9x9 g' \<and> gridHasConflicts g' = gridHasConflicts g"
  proof (cases b)
    case False
    then show ?thesis using o assms(1) by simp
  next
    case True
    then have c: "completes g g'" using o by simp
    have g': "grid9x9 g'" using completes_full[OF c] by simp
    have "conflict_free g' \<longleftrightarrow> conflict_free g"
      using completes_conflict_free[OF assms(1) _ c]
        completion_keeps_conflicts[OF assms(1), of g'] c
      by (auto simp: completes_def)
    then show ?thesis
      using g' gridHasConflicts_iff[OF g'] gridHasConflicts_iff[OF assms(1)] by simp
  qed
  with r show ?thesis by simp
qed

section \<open>Claims about the generator and the conflict scanner\<close>

text \<open>
  C3. For every integer \<open>givens\<close> and every run of the random source, \<open>generateSudoku\<close>
  returns a grid \<open>solution\<close> without empty cells and a \<open>puzzle\<close> with exactly
  \<open>max 17 (min 81 givens)\<close> filled cells; the puzzle is the solution with the cells that
  are empty in the puzzle set to 0, and it is the solution itself from 81 givens on.
\<close>

theorem generate_puzzle_is_solution_with_cells_zeroed:
  assumes "81 \<le> n"
  shows "\<exists>p sol. generateSudoku n (Some givens) rnd = Some (Inr \<lparr>puzzle = p, solution = sol\<rparr>)
      \<and> grid9x9 p \<and> grid9x9 sol \<and> empty_cells sol = {}
      \<and> card (filled_cells p) = nat (max 17 (min 81 givens))
      \<and> card (empty_cells p) = 81 - nat (max 17 (min 81 givens))
      \<and> p = zeroed sol (empty_cells p)
      \<and> (81 \<le> givens \<longrightarrow> p = sol)"
  using assms by (rule generateSudoku_counts)

theorem generate_puzzle_is_solution_with_cells_zeroed_witness:
  "(\<exists>p sol. generateSudoku 81 (Some 30) (\<lambda>k. k) = Some (Inr \<lparr>puzzle = p, solution = sol\<rparr>)
      \<and> card (filled_cells p) = 30 \<and> card (empty_cells p) = 51 \<and> p = zeroed sol (empty_cells p))
   \<and> (\<exists>p sol. generateSudoku 81 (Some 5) (\<lambda>k. k) = Some (Inr \<lparr>puzzle = p, solution = sol\<rparr>)
      \<and> card (filled_cells p) = 17)
   \<and> (\<exists>p sol. generateSudoku 81 (Some 90) (\<lambda>k. k) = Some (Inr \<lparr>puzzle = p, solution = sol\<rparr>)
      \<and> card (filled_cells p) = 81 \<and> p = sol)"
proof -
  have n: "(81::nat) \<le> 81" by simp
  from generate_puzzle_is_solution_with_cells_zeroed[OF n, of 30 "\<lambda>k. k"]
  have a: "\<exists>p sol. generateSudoku 81 (Some 30) (\<lambda>k. k) = Some (Inr \<lparr>puzzle = p, solution = sol\<rparr>)
      \<and> card (filled_cells p) = 30 \<and> card (empty_cells p) = 51 \<and> p = zeroed sol (empty_cells p)"
    by clarsimp
  from generate_puzzle_is_solution_with_cells_zeroed[OF n, of 5 "\<lambda>k. k"]
  have b: "\<exists>p sol. generateSudoku 81 (Some 5) (\<lambda>k. k) = Some (Inr \<lparr>puzzle = p, solution = sol\<rparr>)
      \<and> card (filled_cells p) = 17"
    by clarsimp
  from generate_puzzle_is_solution_with_cells_zeroed[OF n, of 90 "\<lambda>k. k"]
  have c: "\<exists>p sol. generateSudoku 81 (Some 90) (\<lambda>k. k) = Some (Inr \<lparr>puzzle = p, solution = sol\<rparr>)
      \<and> card (filled_cells p) = 81 \<and> p = sol"
    by clarsimp
  from a b c show ?thesis by blast
qed

text \<open>
  C5 (as stated): \<open>gridHasConflicts\<close> is false for the grid of every solve call that returns
  \<open>solved = true\<close>. It is not: on \<open>example_dup_row\<close> the solver answers \<open>solved = true\<close> and
  the grid it returns still holds 3 twice in row 0.
\<close>

theorem solved_grid_with_conflicts_counterexample:
  "solveSudoku 81 example_dup_row
       = Some (Inr \<lparr>solved = True, grid = put example_dup_row 8 8 (Num 9)\<rparr>)
   \<and> gridHasConflicts (put example_dup_row 8 8 (Num 9)) = Inr True"
  by code_simp

text \<open>
  C5 (amended): \<open>gridHasConflicts\<close> is false for the puzzle and for the solution that
  \<open>generateSudoku\<close> returns. For a solve call on a 9x9 grid, \<open>gridHasConflicts\<close> answers on
  the returned grid what it answers on the input, whether \<open>solved\<close> is true or false: false
  when it was false before the call, true when it was true before the call.
\<close>

theorem no_conflicts_in_generated_and_solved_grids:
  assumes "81 \<le> n"
  shows "(\<exists>res. generateSudoku n givens_opt rnd = Some (Inr res)
            \<and> gridHasConflicts (puzzle res) = Inr False
            \<and> gridHasConflicts (solution res) = Inr False)
       \<and> (grid9x9 g \<and> gridHasConflicts g = Inr False \<longrightarrow>
            (\<exists>res. solveSudoku n g = Some (Inr res)
               \<and> (solved res \<longrightarrow> gridHasConflicts (grid res) = Inr False)))
       \<and> (grid9x9 g \<longrightarrow>
            (\<exists>res. solveSudoku n g = Some (Inr res)
               \<and> gridHasConflicts (grid res) = gridHasConflicts g))"
  using generateSudoku_conflict_free[OF assms, of givens_opt rnd]
    solveSudoku_conflict_free[OF assms, of g]
    solveSudoku_same_conflicts[OF _ assms, of g]
  by blast

theorem no_conflicts_in_generated_and_solved_grids_witness:
  "(\<exists>res. generateSudoku 81 None (\<lambda>k. k) = Some (Inr res)
            \<and> gridHasConflicts (puzzle res) = Inr False
            \<and> gridHasConflicts (solution res) = Inr False)
   \<and> (\<exists>res. solveSudoku 81 example_puzzle = Some (Inr res) \<and> solved res
            \<and> gridHasConflicts (grid res) = Inr False)
   \<and> (\<exists>res. solveSudoku 81 example_dup_row = Some (Inr res)
            \<and> gridHasConflicts (grid res) = Inr True)"
proof -
  have n: "(81::nat) \<le> 81" by simp
  have g: "grid9x9 example_puzzle" by code_simp
  have c: "gridHasConflicts example_puzzle = Inr False" by code_simp
  have s: "(case solveSudoku 81 example_puzzle of Some (Inr res) \<Rightarrow> solved res | _ \<Rightarrow> False)"
    by code_simp
  have g2: "grid9x9 example_dup_row" by code_simp
  have c2: "gridHasConflicts example_dup_row = Inr True" by code_simp
  from no_conflicts_in_generated_and_solved_grids[OF n, of None "\<lambda>k. k" example_puzzle] g c
  obtain res where
    a: "\<exists>res. generateSudoku 81 None (\<lambda>k. k) = Some (Inr res)
            \<and> gridHasConflicts (puzzle res) = Inr False
            \<and> gridHasConflicts (solution res) = Inr False"
    and r: "solveSudoku 81 example_puzzle = Some (Inr res)"
    and i: "solved res \<longrightarrow> gridHasConflicts (grid res) = Inr False"
    by blast
  from s r have "solved res" by simp
  moreover have "\<exists>res. solveSudoku 81 example_dup_row = Some (Inr res)
            \<and> gridHasConflicts (grid res) = Inr True"
    using no_conflicts_in_generated_and_solved_grids[OF n, of None "\<lambda>k. k" example_dup_row] g2 c2
    by simp
  ultimately show ?thesis using a r i by blast
qed

section \<open>Arrays in the store\<close>

lemma those_map_Some: "those (map Some xs) = Some xs"
  by (induction xs) simp_all

lemma those_eq_Some: "those xs = Some ys \<Longrightarrow> xs = map Some ys"
  by (induction xs arbitrary: ys) (auto split: option.splits)

lemma read_grid_owns: "owns st a rs g \<Longrightarrow> read_grid st a = Some g"
  by (simp add: owns_def read_grid_def those_map_Some)

lemma read_row_Some: "read_row st r = Some xs \<longleftrightarrow> objs st r = Some (RowObj xs)"
  by (auto simp: read_row_def split: option.splits obj.splits)

lemma frame_refl: "frame rs st st"
  by (simp add: frame_def)

lemma frame_trans: "frame rs st st1 \<Longrightarrow> frame rs st1 st2 \<Longrightarrow> frame rs st st2"
  by (simp add: frame_def)

lemma set_cell_ref_refines:
  assumes o: "owns st a rs g"
  shows "case set_cell g r c v of
           Inl e \<Rightarrow> set_cell_ref st a r c v = Inl e
         | Inr g1 \<Rightarrow> (\<exists>st1. set_cell_ref st a r c v = Inr st1 \<and> owns st1 a rs g1 \<and> frame rs st st1)"
proof (cases "r < length g")
  case False
  have len: "length rs = length g" using o map_eq_imp_length_eq unfolding owns_def by fastforce
  show ?thesis using False o len by (simp add: set_cell_def set_cell_ref_def owns_def)
next
  case True
  have len: "length rs = length g" using o map_eq_imp_length_eq unfolding owns_def by fastforce
  have a: "objs st a = Some (GridObj rs)" and d: "distinct rs"
    and m: "map (read_row st) rs = map Some g" using o by (simp_all add: owns_def)
  have row: "read_row st (rs ! i) = Some (g ! i)" if "i < length g" for i
    using nth_map[of i rs "read_row st"] nth_map[of i g Some] m that len by simp
  let ?st1 = "st\<lparr>objs := (objs st)(rs ! r \<mapsto> RowObj (array_set (g ! r) c v))\<rparr>"
  let ?g1 = "g[r := array_set (g ! r) c v]"
  have res: "set_cell_ref st a r c v = Inr ?st1"
    using True len a row[OF True] by (simp add: set_cell_ref_def)
  have ne: "a \<noteq> rs ! r" using a row[OF True] by (auto simp: read_row_Some)
  have "map (read_row ?st1) rs = map Some ?g1"
  proof (rule nth_equalityI)
    show "length (map (read_row ?st1) rs) = length (map Some ?g1)" using len by simp
  next
    fix i assume "i < length (map (read_row ?st1) rs)"
    then have i: "i < length g" using len by simp
    have "rs ! i = rs ! r \<longleftrightarrow> i = r"
      using d i True len by (simp add: nth_eq_iff_index_eq)
    then show "map (read_row ?st1) rs ! i = map Some ?g1 ! i"
      using i len row[OF i] True by (auto simp: read_row_def)
  qed
  then have "owns ?st1 a rs ?g1" using a d ne by (simp add: owns_def)
  moreover have "frame rs st ?st1" using True len by (auto simp: frame_def)
  ultimately show ?thesis using True res by (simp add: set_cell_def)
qed

lemma clone_rows_fresh:
  "store_ok st \<Longrightarrow> map (read_row st) rs = map Some g \<Longrightarrow>
   \<exists>rs' st1. clone_rows st rs = Inr (rs', st1) \<and> map (read_row st1) rs' = map Some g
     \<and> distinct rs' \<and> (\<forall>x\<in>set rs'. next_addr st \<le> x \<and> x < next_addr st1)
     \<and> next_addr st \<le> next_addr st1 \<and> (\<forall>x<next_addr st. objs st1 x = objs st x)
     \<and> store_ok st1"
proof (induction rs arbitrary: st g)
  case Nil
  then show ?case by simp
next
  case (Cons r rs)
  obtain xs g' where g: "g = xs # g'" using Cons.prems(2) by (cases g) auto
  have rr: "read_row st r = Some xs" and rest: "map (read_row st) rs = map Some g'"
    using Cons.prems(2) g by simp_all
  let ?st1 = "st\<lparr>objs := (objs st)(next_addr st \<mapsto> RowObj xs), next_addr := Suc (next_addr st)\<rparr>"
  have al: "alloc (RowObj xs) st = (next_addr st, ?st1)" by (simp add: alloc_def)
  have ok1: "store_ok ?st1" using Cons.prems(1) by (auto simp: store_ok_def less_Suc_eq)
  have old: "objs st x \<noteq> None \<Longrightarrow> x < next_addr st" for x
    using Cons.prems(1) by (simp add: store_ok_def)
  have "read_row ?st1 x = read_row st x" if mem: "x \<in> set rs" for x
  proof -
    obtain i where "i < length rs" "rs ! i = x" using mem by (auto simp: in_set_conv_nth)
    then have "read_row st x = Some (g' ! i)"
      using nth_map[of i rs "read_row st"] rest map_eq_imp_length_eq[OF rest] by simp
    then have "x \<noteq> next_addr st" using old[of x] by (auto simp: read_row_Some)
    then show ?thesis by (simp add: read_row_def)
  qed
  then have rest1: "map (read_row ?st1) rs = map Some g'" using rest by (simp cong: map_cong)
  from Cons.IH[OF ok1 rest1] obtain rs' st2 where
    c: "clone_rows ?st1 rs = Inr (rs', st2)" and m: "map (read_row st2) rs' = map Some g'"
    and d: "distinct rs'" and b: "\<forall>x\<in>set rs'. next_addr ?st1 \<le> x \<and> x < next_addr st2"
    and n: "next_addr ?st1 \<le> next_addr st2" and u: "\<forall>x<next_addr ?st1. objs st2 x = objs ?st1 x"
    and ok2: "store_ok st2" by blast
  have r1: "clone_rows st (r # rs) = Inr (next_addr st # rs', st2)"
    by (simp add: rr al c)
  have "read_row st2 (next_addr st) = Some xs" using u by (simp add: read_row_def)
  then have m2: "map (read_row st2) (next_addr st # rs') = map Some g" using m g by simp
  have d2: "distinct (next_addr st # rs')" using d b by auto
  have b2: "\<forall>x\<in>set (next_addr st # rs'). next_addr st \<le> x \<and> x < next_addr st2"
    using b n by auto
  have u2: "\<forall>x<next_addr st. objs st2 x = objs st x" using u by simp
  show ?case using r1 m2 d2 b2 n u2 ok2 by auto
qed

section \<open>The search through a reference refines the search on the grid value\<close>

declare backtrack_ref.simps [simp del]

lemma refines_Inl: "refines st a rs (Some (Inl e)) (Some (Inl e))"
  by (simp add: refines_def)

lemma refines_None: "refines st a rs None None"
  by (simp add: refines_def)

lemma refines_Inr:
  "owns st' a rs g' \<Longrightarrow> frame rs st st' \<Longrightarrow>
   refines st a rs (Some (Inr (b, g'))) (Some (Inr (b, st')))"
  by (simp add: refines_def)

lemma refines_frame:
  "frame rs st st1 \<Longrightarrow> refines st1 a rs res res_ref \<Longrightarrow> refines st a rs res res_ref"
  unfolding refines_def
  by (auto split: option.splits sum.splits intro: frame_trans)

lemma backtrack_loop_ref_refines:
  assumes IH: "\<And>m st g. n = Suc m \<Longrightarrow> owns st a rs g \<Longrightarrow>
                 refines st a rs (backtrack m g) (backtrack_ref m a st)"
  shows "owns st a rs g \<Longrightarrow>
         refines st a rs (backtrack_loop n r c vs g) (backtrack_loop_ref n a r c vs st)"
proof (induction vs arbitrary: st g)
  case Nil
  then show ?case by (simp add: refines_Inr frame_refl)
next
  case (Cons v vs)
  have undo: "refines st0 a rs
        (case set_cell g' r c (Num 0) of Inl e \<Rightarrow> Some (Inl e)
         | Inr g2 \<Rightarrow> backtrack_loop n r c vs g2)
        (case set_cell_ref st' a r c (Num 0) of Inl e \<Rightarrow> Some (Inl e)
         | Inr st2 \<Rightarrow> backtrack_loop_ref n a r c vs st2)"
    if o: "owns st' a rs g'" and f: "frame rs st0 st'" for st0 st' g'
  proof (cases "set_cell g' r c (Num 0)")
    case (Inl e)
    then show ?thesis using set_cell_ref_refines[OF o, of r c "Num 0"] by (simp add: refines_Inl)
  next
    case (Inr g2)
    then obtain st2 where w: "set_cell_ref st' a r c (Num 0) = Inr st2"
      and o2: "owns st2 a rs g2" and f2: "frame rs st' st2"
      using set_cell_ref_refines[OF o, of r c "Num 0"] by auto
    have "refines st0 a rs (backtrack_loop n r c vs g2) (backtrack_loop_ref n a r c vs st2)"
      using refines_frame[OF frame_trans[OF f f2] Cons.IH[OF o2]] .
    then show ?thesis by (simp add: Inr w)
  qed
  show ?case
  proof (cases "set_cell g r c (Num v)")
    case (Inl e)
    then show ?thesis
      using set_cell_ref_refines[OF Cons.prems, of r c "Num v"] by (simp add: refines_Inl)
  next
    case (Inr g1)
    then obtain st1 where w: "set_cell_ref st a r c (Num v) = Inr st1"
      and o1: "owns st1 a rs g1" and f1: "frame rs st st1"
      using set_cell_ref_refines[OF Cons.prems, of r c "Num v"] by auto
    have chk: "isValidPlacement_ref st1 a (int r) (int c) (Num v)
        = isValidPlacement g1 (int r) (int c) (Num v)"
      by (simp add: isValidPlacement_ref_def read_grid_owns[OF o1])
    show ?thesis
    proof (cases "isValidPlacement g1 (int r) (int c) (Num v)")
      case (Inl e)
      then show ?thesis by (simp add: \<open>set_cell g r c (Num v) = Inr g1\<close> w chk refines_Inl)
    next
      case ok: (Inr ok)
      show ?thesis
      proof (cases ok)
        case False
        then show ?thesis
          using undo[OF o1 f1] by (simp add: \<open>set_cell g r c (Num v) = Inr g1\<close> w chk ok)
      next
        case True
        show ?thesis
        proof (cases n)
          case 0
          then show ?thesis
            using True by (simp add: \<open>set_cell g r c (Num v) = Inr g1\<close> w chk ok refines_None)
        next
          case (Suc m)
          have rec: "refines st1 a rs (backtrack m g1) (backtrack_ref m a st1)"
            using IH[OF Suc o1] .
          show ?thesis
          proof (cases "backtrack m g1")
            case None
            then have "backtrack_ref m a st1 = None" using rec by (simp add: refines_def)
            then show ?thesis
              using True None Suc
              by (simp add: \<open>set_cell g r c (Num v) = Inr g1\<close> w chk ok refines_None)
          next
            case (Some x)
            show ?thesis
            proof (cases x)
              case (Inl e)
              then have "backtrack_ref m a st1 = Some (Inl e)"
                using rec Some by (simp add: refines_def)
              then show ?thesis
                using True Some Inl Suc
                by (simp add: \<open>set_cell g r c (Num v) = Inr g1\<close> w chk ok refines_Inl)
            next
              case (Inr y)
              obtain b g' where y: "y = (b, g')" by (cases y)
              from rec Some Inr y obtain st' where
                h: "backtrack_ref m a st1 = Some (Inr (b, st'))"
                and o': "owns st' a rs g'" and f': "frame rs st1 st'"
                by (auto simp: refines_def)
              have f: "frame rs st st'" using frame_trans[OF f1 f'] .
              show ?thesis
              proof (cases b)
                case b: True
                then show ?thesis
                  using True Some Inr y Suc refines_Inr[OF o' f, of True]
                  by (simp add: \<open>set_cell g r c (Num v) = Inr g1\<close> w chk ok h)
              next
                case b: False
                then show ?thesis
                  using True Some Inr y Suc undo[OF o' f, unfolded Suc]
                  by (simp add: \<open>set_cell g r c (Num v) = Inr g1\<close> w chk ok h)
              qed
            qed
          qed
        qed
      qed
    qed
  qed
qed

lemma backtrack_ref_refines:
  "owns st a rs g \<Longrightarrow> refines st a rs (backtrack n g) (backtrack_ref n a st)"
proof (induction n arbitrary: st g)
  case 0
  have fe: "findEmpty_ref st a = findEmpty g"
    by (simp add: findEmpty_ref_def read_grid_owns[OF "0.prems"])
  have loop: "refines st a rs (backtrack_loop 0 r c DIGITS g) (backtrack_loop_ref 0 a r c DIGITS st)"
    for r c using "0.prems" by (intro backtrack_loop_ref_refines) simp_all
  show ?case
    unfolding backtrack.simps backtrack_ref.simps fe
    using loop refines_Inr[OF "0.prems" frame_refl, of True]
    by (auto simp: refines_Inl split: sum.splits option.splits)
next
  case (Suc m)
  have fe: "findEmpty_ref st a = findEmpty g"
    by (simp add: findEmpty_ref_def read_grid_owns[OF Suc.prems])
  have loop: "refines st a rs (backtrack_loop (Suc m) r c DIGITS g)
                (backtrack_loop_ref (Suc m) a r c DIGITS st)" for r c
    using Suc.prems Suc.IH by (intro backtrack_loop_ref_refines) simp_all
  show ?case
    unfolding backtrack.simps backtrack_ref.simps fe
    using loop refines_Inr[OF Suc.prems frame_refl, of True]
    by (auto simp: refines_Inl split: sum.splits option.splits)
qed

section \<open>The caller's grid\<close>

lemma cloneGrid_ref_fresh:
  assumes ok: "store_ok st" and rg: "read_grid st a = Some g"
  shows "\<exists>a' rs' st1. cloneGrid_ref st a = Inr (a', st1) \<and> owns st1 a' rs' g
     \<and> next_addr st \<le> a' \<and> (\<forall>x\<in>set rs'. next_addr st \<le> x)
     \<and> (\<forall>x<next_addr st. objs st1 x = objs st x)"
proof -
  obtain rs where a: "objs st a = Some (GridObj rs)" and t: "those (map (read_row st) rs) = Some g"
    using rg by (auto simp: read_grid_def split: option.splits obj.splits)
  have m: "map (read_row st) rs = map Some g" using t by (rule those_eq_Some)
  from clone_rows_fresh[OF ok m] obtain rs' st0 where
    c: "clone_rows st rs = Inr (rs', st0)" and m0: "map (read_row st0) rs' = map Some g"
    and d: "distinct rs'" and b: "\<forall>x\<in>set rs'. next_addr st \<le> x \<and> x < next_addr st0"
    and n: "next_addr st \<le> next_addr st0" and u: "\<forall>x<next_addr st. objs st0 x = objs st x"
    by blast
  let ?st1 = "st0\<lparr>objs := (objs st0)(next_addr st0 \<mapsto> GridObj rs'), next_addr := Suc (next_addr st0)\<rparr>"
  have r: "cloneGrid_ref st a = Inr (next_addr st0, ?st1)"
    by (simp add: cloneGrid_ref_def a c alloc_def)
  have "read_row ?st1 x = read_row st0 x" if "x \<in> set rs'" for x
    using b that by (auto simp: read_row_def)
  then have "map (read_row ?st1) rs' = map Some g" using m0 by (simp cong: map_cong)
  then have o: "owns ?st1 (next_addr st0) rs' g" using d by (simp add: owns_def)
  have u1: "\<forall>x<next_addr st. objs ?st1 x = objs st x" using u n by auto
  show ?thesis using r o n b u1 by blast
qed

lemma read_grid_unchanged:
  assumes ok: "store_ok st" and rg: "read_grid st a = Some g"
    and u: "\<forall>x<next_addr st. objs st' x = objs st x"
  shows "read_grid st' a = Some g"
proof -
  obtain rs where a: "objs st a = Some (GridObj rs)" and t: "those (map (read_row st) rs) = Some g"
    using rg by (auto simp: read_grid_def split: option.splits obj.splits)
  have m: "map (read_row st) rs = map Some g" using t by (rule those_eq_Some)
  have old: "objs st x \<noteq> None \<Longrightarrow> x < next_addr st" for x
    using ok by (simp add: store_ok_def)
  have a': "objs st' a = Some (GridObj rs)" using a old[of a] u by simp
  have "read_row st' x = read_row st x" if mem: "x \<in> set rs" for x
  proof -
    obtain i where "i < length rs" "rs ! i = x" using mem by (auto simp: in_set_conv_nth)
    then have "read_row st x = Some (g ! i)"
      using nth_map[of i rs "read_row st"] m map_eq_imp_length_eq[OF m] by simp
    then have "x < next_addr st" using old[of x] by (auto simp: read_row_Some)
    then show ?thesis using u by (simp add: read_row_def)
  qed
  then have "map (read_row st') rs = map Some g" using m by (simp cong: map_cong)
  then show ?thesis using a' by (simp add: read_grid_def those_map_Some)
qed

lemma solveSudoku_ref_frame:
  assumes ok: "store_ok st" and rg: "read_grid st a = Some g"
    and s: "backtrack n g = Some (Inr (b, g'))"
  shows "\<exists>res st'. solveSudoku_ref n a st = Some (Inr (res, st'))
       \<and> solved_ref res = b
       \<and> (\<forall>x<next_addr st. objs st' x = objs st x)
       \<and> read_grid st' a = Some g
       \<and> next_addr st \<le> grid_ref res
       \<and> read_grid st' (grid_ref res) = Some g'"
proof -
  from cloneGrid_ref_fresh[OF ok rg] obtain a' rs' st1 where
    c: "cloneGrid_ref st a = Inr (a', st1)" and o: "owns st1 a' rs' g"
    and fa: "next_addr st \<le> a'" and fr: "\<forall>x\<in>set rs'. next_addr st \<le> x"
    and u: "\<forall>x<next_addr st. objs st1 x = objs st x" by blast
  from backtrack_ref_refines[OF o, of n] s obtain st2 where
    h: "backtrack_ref n a' st1 = Some (Inr (b, st2))"
    and o2: "owns st2 a' rs' g'" and f: "frame rs' st1 st2"
    by (auto simp: refines_def)
  have u2: "\<forall>x<next_addr st. objs st2 x = objs st x"
  proof (intro allI impI)
    fix x assume x: "x < next_addr st"
    then have "x \<notin> set rs'" using fr by auto
    then have "objs st2 x = objs st1 x" using f by (simp add: frame_def)
    then show "objs st2 x = objs st x" using u x by simp
  qed
  have "solveSudoku_ref n a st = Some (Inr (\<lparr>solved_ref = b, grid_ref = a'\<rparr>, st2))"
    by (simp add: solveSudoku_ref_def c h)
  then show ?thesis
    using u2 read_grid_unchanged[OF ok rg u2] fa read_grid_owns[OF o2] by simp
qed

lemma store_ok_store_of: "store_ok (store_of g)"
  by (auto simp: store_ok_def store_of_def split: if_splits)

lemma read_grid_store_of: "read_grid (store_of g) (length g) = Some g"
proof -
  have "map (read_row (store_of g)) [0..<length g] = map Some g"
    by (rule nth_equalityI) (simp_all add: read_row_def store_of_def)
  then show ?thesis by (simp add: read_grid_def store_of_def those_map_Some)
qed

text \<open>
  C4. The solver works on a copy of its own. Whatever the store holds, when the caller's
  reference denotes a 9x9 grid, after the call every object that was in the store is as it
  was, so the caller's grid is equal to its value before the call, cell for cell; the
  grid returned is a new object, and it holds what the solver computes on the grid value.
\<close>

theorem solve_never_mutates_caller_grid:
  assumes "store_ok st" "read_grid st a = Some g" "grid9x9 g" "81 \<le> n"
  shows "\<exists>res st'. solveSudoku_ref n a st = Some (Inr (res, st'))
       \<and> (\<forall>x<next_addr st. objs st' x = objs st x)
       \<and> read_grid st' a = Some g
       \<and> next_addr st \<le> grid_ref res
       \<and> (\<exists>g'. read_grid st' (grid_ref res) = Some g'
             \<and> solveSudoku n g = Some (Inr \<lparr>solved = solved_ref res, grid = g'\<rparr>))"
proof -
  have "card (empty_cells g) \<le> n" using card_empty_cells_le[of g] assms(4) by simp
  from backtrack_ok[OF assms(3) this] obtain b g' where
    s: "backtrack n g = Some (Inr (b, g'))" unfolding search_ok_def by blast
  then have v: "solveSudoku n g = Some (Inr \<lparr>solved = b, grid = g'\<rparr>)"
    by (simp add: solveSudoku_def cloneGrid_id)
  from solveSudoku_ref_frame[OF assms(1,2) s] v show ?thesis by auto
qed

theorem solve_never_mutates_caller_grid_witness:
  "\<exists>res st'. solveSudoku_ref 81 9 (store_of example_puzzle) = Some (Inr (res, st'))
       \<and> read_grid st' 9 = Some example_puzzle
       \<and> 10 \<le> grid_ref res \<and> solved_ref res
       \<and> read_grid st' (grid_ref res) = Some example_solution"
proof -
  have l: "length example_puzzle = 9" by code_simp
  have g: "grid9x9 example_puzzle" by code_simp
  have n: "(81::nat) \<le> 81" by simp
  have ok: "store_ok (store_of example_puzzle)" by (rule store_ok_store_of)
  have rg: "read_grid (store_of example_puzzle) 9 = Some example_puzzle"
    using read_grid_store_of[of example_puzzle] l by simp
  have nx: "next_addr (store_of example_puzzle) = 10" by (simp add: store_of_def l)
  have s: "solveSudoku 81 example_puzzle = Some (Inr \<lparr>solved = True, grid = example_solution\<rparr>)"
    by code_simp
  from solve_never_mutates_caller_grid[OF ok rg g n] s nx show ?thesis by auto
qed

end
